theory Spec2Isabelle
  imports Main "HOL-Library.AList"
begin

section \<open>The code-flow graph of \<^verbatim>\<open>src/graph.ts\<close>\<close>

text \<open>
  The development embeds the class \<^verbatim>\<open>CodeFlowGraph\<close> of \<^verbatim>\<open>src/graph.ts\<close>: the two
  registries (\<^verbatim>\<open>addNodeIsNew\<close>, \<^verbatim>\<open>addEdgeIsNew\<close>), the recursive builder
  (\<^verbatim>\<open>process...\<close>) and the part of the serializer that carries the integrity check.

  Conventions of the embedding.
  \<^item> A \<^verbatim>\<open>ts-morph\<close> node is an opaque handle of a type \<open>'c\<close>; the code only compares
    handles by identity and queries the library about them. The queries are the fields
    of the record \<open>SourceModel\<close>, a parameter of every builder function.
  \<^item> \<^verbatim>\<open>NodeInfo\<close> objects are mutable and shared, so they live in a store. The store is
    the map \<^verbatim>\<open>nodes\<close> itself: an object is created only by \<^verbatim>\<open>addNodeIsNew\<close>, which files
    it under its own \<^verbatim>\<open>id\<close>, and \<^verbatim>\<open>id\<close> is never assigned again; a reference to a
    \<^verbatim>\<open>NodeInfo\<close> is therefore modelled by that number, and \<^verbatim>\<open>info.id\<close> by the reference.
  \<^item> \<^verbatim>\<open>EdgeInfo\<close> objects are never mutated after construction, so they are plain
    values; their \<^verbatim>\<open>source\<close> and \<^verbatim>\<open>destination\<close> are node references.
  \<^item> The back-reference field \<^verbatim>\<open>codeflow\<close> of both classes is never read and is left out.
  \<^item> A JavaScript \<^verbatim>\<open>Map\<close> that the code iterates (\<^verbatim>\<open>nodes\<close>, \<^verbatim>\<open>edges\<close>) is an association
    list in insertion order; \<^verbatim>\<open>Map.set\<close> is \<^const>\<open>AList.update\<close> (replace in place, or
    append). A \<^verbatim>\<open>Map\<close> that is only looked up is a partial function.
\<close>

subsection \<open>Data model\<close>

datatype NodeType = NFunction | NCall | NArgument | NObject | NAny

datatype EdgeType = EChild | EArgument | ECall

fun nodeTypeToString :: "NodeType \<Rightarrow> string" where
  "nodeTypeToString NFunction = ''Function''"
| "nodeTypeToString NCall = ''Call''"
| "nodeTypeToString NArgument = ''Argument''"
| "nodeTypeToString NObject = ''Object''"
| "nodeTypeToString NAny = ''Any''"

fun edgeTypeToString :: "EdgeType \<Rightarrow> string" where
  "edgeTypeToString EChild = ''Child''"
| "edgeTypeToString EArgument = ''Argument''"
| "edgeTypeToString ECall = ''Call''"

record EdgeInfo =
  source :: nat
  destination :: nat
  edgeId :: nat
  edgeType :: EdgeType

record 'c NodeInfo =
  node :: 'c
  incoming :: "EdgeInfo list"
  outgoing :: "EdgeInfo list"
  nodeId :: nat
  nodeType :: NodeType

text \<open>
  The field \<^verbatim>\<open>edgeInfo\<close> is declared as \<^verbatim>\<open>Map<[number, number], EdgeInfo>\<close>. The only
  access in the whole class is the \<^verbatim>\<open>get\<close> of \<^verbatim>\<open>addEdgeIsNew\<close>; nothing ever calls
  \<^verbatim>\<open>edgeInfo.set\<close>. The lookup is modelled by the value of the pair, the reading most
  favourable to the code (a JavaScript \<^verbatim>\<open>Map\<close> compares array keys by reference, so
  the freshly built key \<^verbatim>\<open>[source.id, destination.id]\<close> would not even match a stored
  one); on a map that stays empty both readings agree.
\<close>

record 'c CodeFlowGraph =
  nodes :: "(nat \<times> 'c NodeInfo) list"
  nodeToInfo :: "'c \<rightharpoonup> nat"
  edges :: "(nat \<times> EdgeInfo) list"
  edgeInfo :: "(nat \<times> nat) \<rightharpoonup> EdgeInfo"
  NEXT_NODE_ID :: nat
  NEXT_EDGE_ID :: nat

definition Map_get :: "('k \<times> 'v) list \<Rightarrow> 'k \<Rightarrow> 'v option" where
  "Map_get m k = map_of m k"

definition Map_set :: "'k \<Rightarrow> 'v \<Rightarrow> ('k \<times> 'v) list \<Rightarrow> ('k \<times> 'v) list" where
  "Map_set k v m = AList.update k v m"

text \<open>The constructor of \<^verbatim>\<open>CodeFlowGraph\<close>.\<close>

definition newGraph :: "'c CodeFlowGraph" where
  "newGraph = \<lparr> nodes = [], nodeToInfo = Map.empty, edges = [], edgeInfo = Map.empty,
                NEXT_NODE_ID = 0, NEXT_EDGE_ID = 0 \<rparr>"

subsection \<open>Node registry and edge registry\<close>

definition addNodeIsNew :: "'c \<Rightarrow> NodeType \<Rightarrow> 'c CodeFlowGraph \<Rightarrow> nat \<times> bool \<times> 'c CodeFlowGraph" where
  "addNodeIsNew nd ty g =
     (case nodeToInfo g nd of
        Some maybeNode \<Rightarrow> (maybeNode, False, g)
      | None \<Rightarrow>
          (let nodeInfo = \<lparr> node = nd, incoming = [], outgoing = [],
                            nodeId = NEXT_NODE_ID g, nodeType = ty \<rparr>
           in (NEXT_NODE_ID g, True,
               g\<lparr> nodes := Map_set (NEXT_NODE_ID g) nodeInfo (nodes g),
                  nodeToInfo := (nodeToInfo g)(nd \<mapsto> NEXT_NODE_ID g),
                  NEXT_NODE_ID := NEXT_NODE_ID g + 1 \<rparr>)))"

definition addNode :: "'c \<Rightarrow> NodeType \<Rightarrow> 'c CodeFlowGraph \<Rightarrow> nat \<times> 'c CodeFlowGraph" where
  "addNode nd ty g = (case addNodeIsNew nd ty g of (n, isNew, g') \<Rightarrow> (n, g'))"

text \<open>\<^verbatim>\<open>this.nodes.get(k)?.addOutgoing(e)\<close>: nothing happens when the key is absent.\<close>

definition addOutgoing :: "nat \<Rightarrow> EdgeInfo \<Rightarrow> 'c CodeFlowGraph \<Rightarrow> 'c CodeFlowGraph" where
  "addOutgoing k e g =
     (case Map_get (nodes g) k of
        None \<Rightarrow> g
      | Some n \<Rightarrow> g\<lparr> nodes := Map_set k (n\<lparr> outgoing := outgoing n @ [e] \<rparr>) (nodes g) \<rparr>)"

definition addIncoming :: "nat \<Rightarrow> EdgeInfo \<Rightarrow> 'c CodeFlowGraph \<Rightarrow> 'c CodeFlowGraph" where
  "addIncoming k e g =
     (case Map_get (nodes g) k of
        None \<Rightarrow> g
      | Some n \<Rightarrow> g\<lparr> nodes := Map_set k (n\<lparr> incoming := incoming n @ [e] \<rparr>) (nodes g) \<rparr>)"

definition addEdgeIsNew ::
  "nat \<Rightarrow> nat \<Rightarrow> EdgeType \<Rightarrow> 'c CodeFlowGraph \<Rightarrow> EdgeInfo \<times> bool \<times> 'c CodeFlowGraph" where
  "addEdgeIsNew src dst ty g =
     (case edgeInfo g (src, dst) of
        Some maybeEdge \<Rightarrow> (maybeEdge, False, g)
      | None \<Rightarrow>
          (let e = \<lparr> source = src, destination = dst, edgeId = NEXT_EDGE_ID g, edgeType = ty \<rparr>;
               g1 = g\<lparr> edges := Map_set (NEXT_EDGE_ID g) e (edges g) \<rparr>;
               g2 = addOutgoing src e g1;
               g3 = addIncoming dst e g2
           in (e, True, g3\<lparr> NEXT_EDGE_ID := NEXT_EDGE_ID g3 + 1 \<rparr>)))"

definition addEdge :: "nat \<Rightarrow> nat \<Rightarrow> EdgeType \<Rightarrow> 'c CodeFlowGraph \<Rightarrow> EdgeInfo \<times> 'c CodeFlowGraph" where
  "addEdge src dst ty g = (case addEdgeIsNew src dst ty g of (e, isNew, g') \<Rightarrow> (e, g'))"

subsection \<open>The source model\<close>

text \<open>
  What the builder asks of \<^verbatim>\<open>ts-morph\<close>. Each field is the method of the same name;
  an \<^verbatim>\<open>...OrThrow\<close> method is the field without the suffix, returning \<open>None\<close> where the
  method throws. \<open>getDescendantCalls\<close> is \<^verbatim>\<open>getDescendantsOfKind(SyntaxKind.CallExpression)\<close>
  (the proper descendants, in document order). \<open>findReferences\<close> gives, for each
  \<^verbatim>\<open>ReferencedSymbol\<close>, the nodes of its \<^verbatim>\<open>getReferences()\<close>. \<^verbatim>\<open>BodiedNode.getBody\<close> throws
  when there is no body, like \<^verbatim>\<open>getBodyOrThrow\<close>.
\<close>

datatype SyntaxKind =
    VariableDeclaration | FunctionDeclaration | MethodDeclaration | CallExpression
  | Identifier | ArrowFunction | FunctionExpression | PropertyAccessExpression
  | Parameter | OtherKind

record 'c SourceModel =
  getSourceFiles :: "'c list"
  getVariableDeclarations :: "'c \<Rightarrow> 'c list"
  getFunctions :: "'c \<Rightarrow> 'c list"
  getClasses :: "'c \<Rightarrow> 'c list"
  getMethods :: "'c \<Rightarrow> 'c list"
  getVariableStatement :: "'c \<Rightarrow> 'c option"
  getDeclarations :: "'c \<Rightarrow> 'c list"
  getKind :: "'c \<Rightarrow> SyntaxKind"
  isExported :: "'c \<Rightarrow> bool"
  getInitializer :: "'c \<Rightarrow> 'c option"
  getBody :: "'c \<Rightarrow> 'c option"
  getDescendantCalls :: "'c \<Rightarrow> 'c list"
  getExpression :: "'c \<Rightarrow> 'c"
  getDefinitionNodes :: "'c \<Rightarrow> 'c list"
  getArguments :: "'c \<Rightarrow> 'c list"
  findReferences :: "'c \<Rightarrow> 'c list list"
  getParent :: "'c \<Rightarrow> 'c option"
  getSymbolName :: "'c \<Rightarrow> string option"

subsection \<open>Results of a build step\<close>

text \<open>
  A step of the builder returns, throws, or does not come back. \<open>UndefinedOutgoing\<close> is
  the \<^verbatim>\<open>TypeError\<close> of reading \<^verbatim>\<open>.outgoing\<close> of \<^verbatim>\<open>undefined\<close>; \<open>ArgumentEdgeOnNonCall\<close>
  is the string thrown by \<^verbatim>\<open>nodesToJSON\<close>.
\<close>

datatype error =
    NoVariableStatement | NoInitializer | NoBody | NoParent | NoSymbol
  | UndefinedOutgoing | ArgumentEdgeOnNonCall

datatype 'a result = Diverges | Throws error | Returns 'a

fun andThen :: "'a result \<Rightarrow> ('a \<Rightarrow> 'b result) \<Rightarrow> 'b result" where
  "andThen Diverges f = Diverges"
| "andThen (Throws e) f = Throws e"
| "andThen (Returns x) f = f x"

text \<open>A \<^verbatim>\<open>for (const x of xs)\<close> over an array that the body does not touch.\<close>

fun forEach :: "('a \<Rightarrow> 's \<Rightarrow> 's result) \<Rightarrow> 'a list \<Rightarrow> 's \<Rightarrow> 's result" where
  "forEach body [] g = Returns g"
| "forEach body (x # xs) g = andThen (body x g) (forEach body xs)"

subsection \<open>The builder\<close>

text \<open>
  \<^verbatim>\<open>for (const edge of definitionInfo.outgoing) this.addEdge(source, edge.destination, Child)\<close>.
  The array is read while \<^verbatim>\<open>addEdge\<close> may push onto it (when \<^verbatim>\<open>definitionInfo\<close> and
  \<^verbatim>\<open>source\<close> are the same object), and the array iterator compares its index with the
  current length at every step; the loop is therefore modelled with its index over the
  live store, and may not come back (\<open>None\<close>). A reference that is not in the store does
  not occur in a graph built by the class; it is read as an object without edges.
\<close>

definition outgoingOf :: "'c CodeFlowGraph \<Rightarrow> nat \<Rightarrow> EdgeInfo list" where
  "outgoingOf g k = (case Map_get (nodes g) k of None \<Rightarrow> [] | Some n \<Rightarrow> outgoing n)"

partial_function (option) spliceLoop ::
  "nat \<Rightarrow> nat \<Rightarrow> nat \<Rightarrow> 'c CodeFlowGraph \<Rightarrow> 'c CodeFlowGraph option" where
  "spliceLoop definitionInfo src i g =
     (if i < length (outgoingOf g definitionInfo)
      then spliceLoop definitionInfo src (Suc i)
             (snd (addEdge src (destination (outgoingOf g definitionInfo ! i)) EChild g))
      else Some g)"

definition splice :: "nat \<Rightarrow> nat \<Rightarrow> 'c CodeFlowGraph \<Rightarrow> 'c CodeFlowGraph result" where
  "splice definitionInfo src g =
     (case spliceLoop definitionInfo src 0 g of None \<Rightarrow> Diverges | Some g' \<Rightarrow> Returns g')"

text \<open>
  The five mutually recursive methods. Each body is written once, with the methods it
  calls as parameters (\<open>pCall\<close> for \<^verbatim>\<open>this.processCallExpression\<close>, and so on); the
  methods themselves close the recursion over a bound on the depth of the calls still
  allowed, and a method entered with depth \<open>0\<close> has not come back.
  \<^verbatim>\<open>processVariableDeclaration\<close> and \<^verbatim>\<open>processDefinition\<close> return
  \<^verbatim>\<open>NodeInfo | undefined\<close> (the \<^verbatim>\<open>source!\<close> of \<^verbatim>\<open>processDefinition\<close> is erased by the
  compiler), the others a \<^verbatim>\<open>NodeInfo\<close>. The two nested loops over \<^verbatim>\<open>findReferences()\<close>
  have no statement between them and are one loop over the concatenation.
\<close>

type_synonym 'c process = "'c \<Rightarrow> 'c CodeFlowGraph \<Rightarrow> (nat \<times> 'c CodeFlowGraph) result"

type_synonym 'c processOpt = "'c \<Rightarrow> 'c CodeFlowGraph \<Rightarrow> (nat option \<times> 'c CodeFlowGraph) result"

text \<open>
  The loop that four of the methods share, for the calls of a body and for the arguments
  of a call:
  \<^verbatim>\<open>for (const x of xs) { const info = this.process...(x); this.addEdge(source, info, type); }\<close>
\<close>

definition linkEach ::
  "'c process \<Rightarrow> nat \<Rightarrow> EdgeType \<Rightarrow> 'c list \<Rightarrow> 'c CodeFlowGraph \<Rightarrow> 'c CodeFlowGraph result" where
  "linkEach p src ty xs g =
     forEach (\<lambda>x g'. andThen (p x g')
                (\<lambda>(info, g''). Returns (snd (addEdge src info ty g''))))
             xs g"

text \<open>The loop over the references of an object-valued variable.\<close>

definition referencesLoop ::
  "'c SourceModel \<Rightarrow> 'c process \<Rightarrow> nat \<Rightarrow> 'c list \<Rightarrow> 'c CodeFlowGraph
     \<Rightarrow> 'c CodeFlowGraph result" where
  "referencesLoop sm pCall src refs g =
     forEach
       (\<lambda>reference g'.
          case getParent sm reference of
            None \<Rightarrow> Throws NoParent
          | Some temp \<Rightarrow>
              (case getParent sm temp of
                 None \<Rightarrow> Throws NoParent
               | Some call \<Rightarrow>
                   if getKind sm call = CallExpression \<and> getExpression sm call = temp
                   then andThen (pCall call g')
                          (\<lambda>(callInfo, g''). Returns (snd (addEdge src callInfo ECall g'')))
                   else Returns g'))
       refs g"

definition processVariableDeclaration_body ::
  "'c SourceModel \<Rightarrow> 'c process \<Rightarrow> 'c \<Rightarrow> bool \<Rightarrow> 'c CodeFlowGraph
     \<Rightarrow> (nat option \<times> 'c CodeFlowGraph) result" where
  "processVariableDeclaration_body sm pCall declaration export_only g =
     (if export_only \<and> \<not> isExported sm declaration then Returns (None, g)
      else case getInitializer sm declaration of
        None \<Rightarrow> Throws NoInitializer
      | Some init \<Rightarrow>
          (let functionLike =
                 (getKind sm init = ArrowFunction \<or> getKind sm init = FunctionExpression)
           in case addNodeIsNew declaration (if functionLike then NFunction else NObject) g of
             (src, isNew, g1) \<Rightarrow>
               if \<not> isNew then Returns (Some src, g1)
               else if functionLike then
                 (case getBody sm init of
                    None \<Rightarrow> Throws NoBody
                  | Some body \<Rightarrow>
                      andThen (linkEach pCall src EChild (getDescendantCalls sm body) g1)
                        (\<lambda>g2. Returns (Some src, g2)))
               else
                 andThen (referencesLoop sm pCall src (concat (findReferences sm declaration)) g1)
                   (\<lambda>g2. Returns (Some src, g2))))"

text \<open>
  The loop over the definitions of an identifier callee; \<^verbatim>\<open>definitionInfo.outgoing\<close> on
  \<^verbatim>\<open>undefined\<close> throws.
\<close>

definition definitionsLoop ::
  "'c processOpt \<Rightarrow> nat \<Rightarrow> 'c list \<Rightarrow> 'c CodeFlowGraph \<Rightarrow> 'c CodeFlowGraph result" where
  "definitionsLoop pDef src definitions g =
     forEach
       (\<lambda>definition g'.
          andThen (pDef definition g')
            (\<lambda>(definitionInfo, g'').
               case definitionInfo of
                 None \<Rightarrow> Throws UndefinedOutgoing
               | Some d \<Rightarrow> splice d src g''))
       definitions g"

definition processCallExpression_body ::
  "'c SourceModel \<Rightarrow> 'c processOpt \<Rightarrow> 'c process \<Rightarrow> 'c process" where
  "processCallExpression_body sm pDef pArg call g =
     (case addNodeIsNew call NCall g of
        (src, isNew, g1) \<Rightarrow>
          if \<not> isNew then Returns (src, g1)
          else
            andThen
              (if getKind sm (getExpression sm call) = Identifier
               then definitionsLoop pDef src (getDefinitionNodes sm (getExpression sm call)) g1
               else Returns g1)
              (\<lambda>g2. andThen (linkEach pArg src EArgument (getArguments sm call) g2)
                 (\<lambda>g3. Returns (src, g3))))"

definition processDefinition_body ::
  "'c SourceModel \<Rightarrow> ('c \<Rightarrow> bool \<Rightarrow> 'c CodeFlowGraph \<Rightarrow> (nat option \<times> 'c CodeFlowGraph) result)
     \<Rightarrow> 'c process \<Rightarrow> 'c processOpt" where
  "processDefinition_body sm pVar pFun definition g =
     (if getKind sm definition = VariableDeclaration
      then pVar definition True g
      else if getKind sm definition = FunctionDeclaration
      then andThen (pFun definition g) (\<lambda>(src, g'). Returns (Some src, g'))
      else case addNode definition NAny g of (src, g1) \<Rightarrow> Returns (Some src, g1))"

definition processFunctionDeclaration_body ::
  "'c SourceModel \<Rightarrow> 'c process \<Rightarrow> 'c process" where
  "processFunctionDeclaration_body sm pCall func g =
     (case addNodeIsNew func NFunction g of
        (src, isNew, g1) \<Rightarrow>
          if \<not> isNew then Returns (src, g1)
          else (case getBody sm func of
                  None \<Rightarrow> Throws NoBody
                | Some body \<Rightarrow>
                    andThen (linkEach pCall src EChild (getDescendantCalls sm body) g1)
                      (\<lambda>g2. Returns (src, g2))))"

definition processArgument_body ::
  "'c SourceModel \<Rightarrow> 'c process \<Rightarrow> 'c process" where
  "processArgument_body sm pCall nd g =
     (case addNodeIsNew nd NArgument g of
        (src, isNew, g1) \<Rightarrow>
          if \<not> isNew then Returns (src, g1)
          else
            andThen (linkEach pCall src EChild (getDescendantCalls sm nd) g1)
              (\<lambda>g2. Returns (src, g2)))"

fun processVariableDeclaration ::
      "'c SourceModel \<Rightarrow> nat \<Rightarrow> 'c \<Rightarrow> bool \<Rightarrow> 'c CodeFlowGraph
         \<Rightarrow> (nat option \<times> 'c CodeFlowGraph) result"
  and processCallExpression :: "'c SourceModel \<Rightarrow> nat \<Rightarrow> 'c process"
  and processDefinition :: "'c SourceModel \<Rightarrow> nat \<Rightarrow> 'c processOpt"
  and processFunctionDeclaration :: "'c SourceModel \<Rightarrow> nat \<Rightarrow> 'c process"
  and processArgument :: "'c SourceModel \<Rightarrow> nat \<Rightarrow> 'c process"
where
  "processVariableDeclaration sm 0 declaration export_only g = Diverges"
| "processVariableDeclaration sm (Suc n) declaration export_only g =
     processVariableDeclaration_body sm (\<lambda>c g'. processCallExpression sm n c g')
       declaration export_only g"
| "processCallExpression sm 0 call g = Diverges"
| "processCallExpression sm (Suc n) call g =
     processCallExpression_body sm (\<lambda>c g'. processDefinition sm n c g')
       (\<lambda>c g'. processArgument sm n c g') call g"
| "processDefinition sm 0 definition g = Diverges"
| "processDefinition sm (Suc n) definition g =
     processDefinition_body sm (\<lambda>c b g'. processVariableDeclaration sm n c b g')
       (\<lambda>c g'. processFunctionDeclaration sm n c g') definition g"
| "processFunctionDeclaration sm 0 func g = Diverges"
| "processFunctionDeclaration sm (Suc n) func g =
     processFunctionDeclaration_body sm (\<lambda>c g'. processCallExpression sm n c g') func g"
| "processArgument sm 0 nd g = Diverges"
| "processArgument sm (Suc n) nd g =
     processArgument_body sm (\<lambda>c g'. processCallExpression sm n c g') nd g"

text \<open>The entry points: none of them is called from the five methods above.\<close>

definition processMethodDeclaration :: "'c SourceModel \<Rightarrow> nat \<Rightarrow> 'c process" where
  "processMethodDeclaration sm n method g =
     (case addNodeIsNew method NFunction g of
        (src, isNew, g1) \<Rightarrow>
          if \<not> isNew then Returns (src, g1)
          else (case getBody sm method of
                  None \<Rightarrow> Throws NoBody
                | Some body \<Rightarrow>
                    andThen
                      (linkEach (processCallExpression sm n) src EChild
                         (getDescendantCalls sm body) g1)
                      (\<lambda>g2. Returns (src, g2))))"

definition processClass ::
  "'c SourceModel \<Rightarrow> nat \<Rightarrow> 'c \<Rightarrow> 'c CodeFlowGraph \<Rightarrow> 'c CodeFlowGraph result" where
  "processClass sm n cls g =
     forEach (\<lambda>method g'. andThen (processMethodDeclaration sm n method g')
                (\<lambda>(info, g''). Returns g''))
             (getMethods sm cls) g"

definition processClasses ::
  "'c SourceModel \<Rightarrow> nat \<Rightarrow> 'c \<Rightarrow> 'c CodeFlowGraph \<Rightarrow> 'c CodeFlowGraph result" where
  "processClasses sm n sourceFile g =
     forEach (\<lambda>cls g'. processClass sm n cls g') (getClasses sm sourceFile) g"

definition processFunctions ::
  "'c SourceModel \<Rightarrow> nat \<Rightarrow> 'c \<Rightarrow> 'c CodeFlowGraph \<Rightarrow> 'c CodeFlowGraph result" where
  "processFunctions sm n sourceFile g =
     forEach (\<lambda>func g'. andThen (processFunctionDeclaration sm n func g')
                (\<lambda>(info, g''). Returns g''))
             (getFunctions sm sourceFile) g"

text \<open>
  \<^verbatim>\<open>getDeclarations()\<close> returns an array, which is never falsy: the \<^verbatim>\<open>continue\<close> of
  \<^verbatim>\<open>processVariables\<close> is dead code. The call passes no \<^verbatim>\<open>export_only\<close>, so the default
  \<^verbatim>\<open>true\<close> applies.
\<close>

definition processVariables ::
  "'c SourceModel \<Rightarrow> nat \<Rightarrow> 'c \<Rightarrow> 'c CodeFlowGraph \<Rightarrow> 'c CodeFlowGraph result" where
  "processVariables sm n sourceFile g =
     forEach
       (\<lambda>variable g'.
          case getVariableStatement sm variable of
            None \<Rightarrow> Throws NoVariableStatement
          | Some statement \<Rightarrow>
              forEach (\<lambda>declaration g''.
                         andThen (processVariableDeclaration sm n declaration True g'')
                           (\<lambda>(info, g3). Returns g3))
                      (getDeclarations sm statement) g')
       (getVariableDeclarations sm sourceFile) g"

definition initialize ::
  "'c SourceModel \<Rightarrow> nat \<Rightarrow> 'c CodeFlowGraph \<Rightarrow> 'c CodeFlowGraph result" where
  "initialize sm n g =
     forEach
       (\<lambda>sourceFile g'.
          andThen (processVariables sm n sourceFile g')
            (\<lambda>g1. andThen (processFunctions sm n sourceFile g1)
               (\<lambda>g2. processClasses sm n sourceFile g2)))
       (getSourceFiles sm) g"

subsection \<open>The serializer\<close>

text \<open>
  \<^verbatim>\<open>nodesToJSON\<close>, without the two fields \<^verbatim>\<open>location\<close> and \<^verbatim>\<open>raw_source\<close> (strings read
  from the library, which cannot fail). The callback of \<^verbatim>\<open>filter\<close> throws at the first
  \<^verbatim>\<open>Argument\<close> edge of a node that is not a \<^verbatim>\<open>Call\<close>.
\<close>

datatype NodeData = NameData string | ArgsData "nat list" | EmptyData

record JsonNode =
  json_id :: nat
  json_class :: string
  json_incoming :: "nat list"
  json_outgoing :: "nat list"
  json_node_data :: NodeData

fun outgoingFilter :: "NodeType \<Rightarrow> EdgeInfo list \<Rightarrow> EdgeInfo list result" where
  "outgoingFilter ty [] = Returns []"
| "outgoingFilter ty (e # es) =
     (if edgeType e = EArgument \<and> ty \<noteq> NCall then Throws ArgumentEdgeOnNonCall
      else andThen (outgoingFilter ty es)
             (\<lambda>r. Returns (if edgeType e \<noteq> EArgument then e # r else r)))"

definition nodeDataOf :: "'c SourceModel \<Rightarrow> 'c NodeInfo \<Rightarrow> NodeData result" where
  "nodeDataOf sm nodeInfo =
     (if nodeType nodeInfo = NFunction then
        (case getSymbolName sm (node nodeInfo) of
           None \<Rightarrow> Throws NoSymbol | Some name \<Rightarrow> Returns (NameData name))
      else if nodeType nodeInfo = NCall then
        Returns (ArgsData (map edgeId (filter (\<lambda>e. edgeType e = EArgument) (outgoing nodeInfo))))
      else if nodeType nodeInfo = NArgument then Returns EmptyData
      else if nodeType nodeInfo = NObject then
        (case getSymbolName sm (node nodeInfo) of
           None \<Rightarrow> Throws NoSymbol | Some name \<Rightarrow> Returns (NameData name))
      else Returns EmptyData)"

definition nodeToJSON :: "'c SourceModel \<Rightarrow> 'c NodeInfo \<Rightarrow> JsonNode result" where
  "nodeToJSON sm nodeInfo =
     andThen (nodeDataOf sm nodeInfo)
       (\<lambda>nodeData. andThen (outgoingFilter (nodeType nodeInfo) (outgoing nodeInfo))
          (\<lambda>out. Returns \<lparr> json_id = nodeId nodeInfo,
                            json_class = nodeTypeToString (nodeType nodeInfo),
                            json_incoming = map edgeId (incoming nodeInfo),
                            json_outgoing = map edgeId out,
                            json_node_data = nodeData \<rparr>))"

fun nodesToJSON_loop :: "'c SourceModel \<Rightarrow> (nat \<times> 'c NodeInfo) list \<Rightarrow> JsonNode list result" where
  "nodesToJSON_loop sm [] = Returns []"
| "nodesToJSON_loop sm ((k, nodeInfo) # rest) =
     andThen (nodeToJSON sm nodeInfo)
       (\<lambda>j. andThen (nodesToJSON_loop sm rest) (\<lambda>js. Returns (j # js)))"

definition nodesToJSON :: "'c SourceModel \<Rightarrow> 'c CodeFlowGraph \<Rightarrow> JsonNode list result" where
  "nodesToJSON sm g = nodesToJSON_loop sm (nodes g)"

section \<open>The test input of the repository\<close>

text \<open>
  The only input that the repository carries is the file analysed by \<^verbatim>\<open>src/index.ts\<close>
  (under \<^verbatim>\<open>Tryaway/\<close>):
  \<^verbatim>\<open>
  export class Foo {
      bar(x: number, callback: (x: number) => number): number {
          return callback(callback(x));
      }
  }
  export const double = function(x: number) { return x + x; }
  export const foo = new Foo();
  foo.bar(5, double);
  \<close>
  Its syntax nodes are the values of the type \<open>fixture\<close>, and \<open>fixtureModel\<close> answers
  the queries of the builder as \<^verbatim>\<open>ts-morph\<close> does on this file: the outer call is
  \<open>CallOuter\<close>, its only argument is the inner call \<open>CallInner\<close> itself, both callees resolve
  to the parameter \<open>ParamCallback\<close>; the references of \<open>foo\<close> are the name in its
  declaration and the \<open>foo\<close> of \<open>foo.bar\<close>. Asked for the definitions of the property
  access \<open>foo.bar\<close>, the model answers the declaration of \<open>bar\<close>, which is where the
  language service leads from that name; the builder asks for the definitions of bare
  identifiers only.
\<close>

datatype fixture =
    File | ClassFoo | MethodBar | BodyBar | ParamX | ParamCallback
  | CallOuter | CalleeOuter | CallInner | CalleeInner | ArgX
  | StmtDouble | VarDouble | NameDouble | InitDouble | BodyDouble
  | StmtFoo | ListFoo | VarFoo | NameFoo | InitFoo
  | StmtCall | CallFooBar | AccessFooBar | RefFoo | Arg5 | ArgDouble

fun fx_getKind :: "fixture \<Rightarrow> SyntaxKind" where
  "fx_getKind VarDouble = VariableDeclaration"
| "fx_getKind VarFoo = VariableDeclaration"
| "fx_getKind MethodBar = MethodDeclaration"
| "fx_getKind CallOuter = CallExpression"
| "fx_getKind CallInner = CallExpression"
| "fx_getKind CallFooBar = CallExpression"
| "fx_getKind CalleeOuter = Identifier"
| "fx_getKind CalleeInner = Identifier"
| "fx_getKind ArgX = Identifier"
| "fx_getKind NameDouble = Identifier"
| "fx_getKind NameFoo = Identifier"
| "fx_getKind RefFoo = Identifier"
| "fx_getKind ArgDouble = Identifier"
| "fx_getKind InitDouble = FunctionExpression"
| "fx_getKind AccessFooBar = PropertyAccessExpression"
| "fx_getKind ParamX = Parameter"
| "fx_getKind ParamCallback = Parameter"
| "fx_getKind _ = OtherKind"

fun fx_getParent :: "fixture \<Rightarrow> fixture option" where
  "fx_getParent File = None"
| "fx_getParent MethodBar = Some ClassFoo"
| "fx_getParent BodyBar = Some MethodBar"
| "fx_getParent ParamX = Some MethodBar"
| "fx_getParent ParamCallback = Some MethodBar"
| "fx_getParent CallOuter = Some BodyBar"
| "fx_getParent CalleeOuter = Some CallOuter"
| "fx_getParent CallInner = Some CallOuter"
| "fx_getParent CalleeInner = Some CallInner"
| "fx_getParent ArgX = Some CallInner"
| "fx_getParent VarDouble = Some StmtDouble"
| "fx_getParent NameDouble = Some VarDouble"
| "fx_getParent InitDouble = Some VarDouble"
| "fx_getParent BodyDouble = Some InitDouble"
| "fx_getParent ListFoo = Some StmtFoo"
| "fx_getParent VarFoo = Some ListFoo"
| "fx_getParent NameFoo = Some VarFoo"
| "fx_getParent InitFoo = Some VarFoo"
| "fx_getParent CallFooBar = Some StmtCall"
| "fx_getParent AccessFooBar = Some CallFooBar"
| "fx_getParent RefFoo = Some AccessFooBar"
| "fx_getParent Arg5 = Some CallFooBar"
| "fx_getParent ArgDouble = Some CallFooBar"
| "fx_getParent _ = Some File"

fun fx_getExpression :: "fixture \<Rightarrow> fixture" where
  "fx_getExpression CallOuter = CalleeOuter"
| "fx_getExpression CallInner = CalleeInner"
| "fx_getExpression CallFooBar = AccessFooBar"
| "fx_getExpression c = c"

fun fx_getDefinitionNodes :: "fixture \<Rightarrow> fixture list" where
  "fx_getDefinitionNodes CalleeOuter = [ParamCallback]"
| "fx_getDefinitionNodes CalleeInner = [ParamCallback]"
| "fx_getDefinitionNodes ArgX = [ParamX]"
| "fx_getDefinitionNodes RefFoo = [VarFoo]"
| "fx_getDefinitionNodes NameFoo = [VarFoo]"
| "fx_getDefinitionNodes ArgDouble = [VarDouble]"
| "fx_getDefinitionNodes NameDouble = [VarDouble]"
| "fx_getDefinitionNodes AccessFooBar = [MethodBar]"
| "fx_getDefinitionNodes _ = []"

definition fixtureModel :: "fixture SourceModel" where
  "fixtureModel = \<lparr>
     getSourceFiles = [File],
     getVariableDeclarations = (\<lambda>c. if c = File then [VarDouble, VarFoo] else []),
     getFunctions = (\<lambda>c. []),
     getClasses = (\<lambda>c. if c = File then [ClassFoo] else []),
     getMethods = (\<lambda>c. if c = ClassFoo then [MethodBar] else []),
     getVariableStatement = (\<lambda>c. if c = VarDouble then Some StmtDouble
                                   else if c = VarFoo then Some StmtFoo else None),
     getDeclarations = (\<lambda>c. if c = StmtDouble then [VarDouble]
                              else if c = StmtFoo then [VarFoo] else []),
     getKind = fx_getKind,
     isExported = (\<lambda>c. c = ClassFoo \<or> c = VarDouble \<or> c = VarFoo),
     getInitializer = (\<lambda>c. if c = VarDouble then Some InitDouble
                             else if c = VarFoo then Some InitFoo else None),
     getBody = (\<lambda>c. if c = MethodBar then Some BodyBar
                      else if c = InitDouble then Some BodyDouble else None),
     getDescendantCalls = (\<lambda>c. if c = BodyBar \<or> c = MethodBar \<or> c = ClassFoo then [CallOuter, CallInner]
                                 else if c = CallOuter then [CallInner]
                                 else if c = StmtCall then [CallFooBar]
                                 else if c = File then [CallOuter, CallInner, CallFooBar]
                                 else []),
     getExpression = fx_getExpression,
     getDefinitionNodes = fx_getDefinitionNodes,
     getArguments = (\<lambda>c. if c = CallOuter then [CallInner]
                           else if c = CallInner then [ArgX]
                           else if c = CallFooBar then [Arg5, ArgDouble] else []),
     findReferences = (\<lambda>c. if c = VarFoo then [[NameFoo, RefFoo]]
                             else if c = VarDouble then [[NameDouble, ArgDouble]] else []),
     getParent = fx_getParent,
     getSymbolName = (\<lambda>c. if c = VarDouble then Some ''double''
                            else if c = VarFoo then Some ''foo''
                            else if c = MethodBar then Some ''bar'' else None) \<rparr>"

declare spliceLoop.simps [code]

definition isReturns :: "'a result \<Rightarrow> bool" where
  "isReturns r = (case r of Returns x \<Rightarrow> True | _ \<Rightarrow> False)"

definition fixtureGraph :: "fixture CodeFlowGraph" where
  "fixtureGraph = (case initialize fixtureModel 5 newGraph of Returns g \<Rightarrow> g | _ \<Rightarrow> newGraph)"

lemma fixture_build_returns: "initialize fixtureModel 5 newGraph = Returns fixtureGraph"
proof -
  have "isReturns (initialize fixtureModel 5 newGraph)" by code_simp
  then show ?thesis
    by (cases "initialize fixtureModel 5 newGraph") (simp_all add: isReturns_def fixtureGraph_def)
qed

lemma fixture_edges:
  "edges fixtureGraph =
     [(0, \<lparr>source = 2, destination = 3, edgeId = 0, edgeType = EArgument\<rparr>),
      (1, \<lparr>source = 2, destination = 4, edgeId = 1, edgeType = EArgument\<rparr>),
      (2, \<lparr>source = 1, destination = 2, edgeId = 2, edgeType = ECall\<rparr>),
      (3, \<lparr>source = 6, destination = 8, edgeId = 3, edgeType = EArgument\<rparr>),
      (4, \<lparr>source = 5, destination = 6, edgeId = 4, edgeType = EChild\<rparr>),
      (5, \<lparr>source = 5, destination = 8, edgeId = 5, edgeType = EChild\<rparr>)]"
  by code_simp

section \<open>A second input\<close>

text \<open>
  A file that exercises what the test input does not: a variable that is not exported,
  and a bare-identifier call whose callee is an exported, object-valued variable.
  \<^verbatim>\<open>
  export const log = console.log.bind(console);
  log.call(null);
  export function main() { log(); }
  const helper = function(x) { return x; };
  \<close>
  The references of \<open>log\<close> are the name in its declaration (\<open>NameLog\<close>), the \<open>log\<close> of
  \<open>log.call\<close> (\<open>RefLogCall\<close>) and the callee of \<open>log()\<close> (\<open>RefLogMain\<close>); only the second
  has a call expression as grandparent whose callee is its parent. For the callee of a
  call whose signature is declared elsewhere than the callee, the language service
  answers the declaration of the callee and then the declaration of the signature: the
  definitions of the callee of \<open>log()\<close> are the declaration of \<open>log\<close> and the method
  signature \<^verbatim>\<open>log(...data: any[]): void\<close> of the interface \<^verbatim>\<open>Console\<close> in
  \<^verbatim>\<open>lib.dom.d.ts\<close> (\<open>SigLog\<close>), a file that is not among the source files of the
  project. \<open>abortModel\<close> is the same file without the \<^verbatim>\<open>export\<close> of \<open>log\<close>.
\<close>

datatype second =
    FileS | StmtLog | ListLog | VarLog | NameLog | InitLog
  | StmtLogCall | CallLogCall | AccessLogCall | RefLogCall | ArgNull
  | FunMain | BodyMain | StmtMain | CallLogMain | RefLogMain
  | StmtHelper | ListHelper | VarHelper | NameHelper | InitHelper | BodyHelper
  | LibDom | IfaceConsole | SigLog

fun sd_getKind :: "second \<Rightarrow> SyntaxKind" where
  "sd_getKind VarLog = VariableDeclaration"
| "sd_getKind VarHelper = VariableDeclaration"
| "sd_getKind FunMain = FunctionDeclaration"
| "sd_getKind CallLogCall = CallExpression"
| "sd_getKind CallLogMain = CallExpression"
| "sd_getKind InitLog = CallExpression"
| "sd_getKind AccessLogCall = PropertyAccessExpression"
| "sd_getKind NameLog = Identifier"
| "sd_getKind RefLogCall = Identifier"
| "sd_getKind RefLogMain = Identifier"
| "sd_getKind NameHelper = Identifier"
| "sd_getKind InitHelper = FunctionExpression"
| "sd_getKind _ = OtherKind"

fun sd_getParent :: "second \<Rightarrow> second option" where
  "sd_getParent FileS = None"
| "sd_getParent LibDom = None"
| "sd_getParent IfaceConsole = Some LibDom"
| "sd_getParent SigLog = Some IfaceConsole"
| "sd_getParent ListLog = Some StmtLog"
| "sd_getParent VarLog = Some ListLog"
| "sd_getParent NameLog = Some VarLog"
| "sd_getParent InitLog = Some VarLog"
| "sd_getParent CallLogCall = Some StmtLogCall"
| "sd_getParent AccessLogCall = Some CallLogCall"
| "sd_getParent RefLogCall = Some AccessLogCall"
| "sd_getParent ArgNull = Some CallLogCall"
| "sd_getParent BodyMain = Some FunMain"
| "sd_getParent StmtMain = Some BodyMain"
| "sd_getParent CallLogMain = Some StmtMain"
| "sd_getParent RefLogMain = Some CallLogMain"
| "sd_getParent ListHelper = Some StmtHelper"
| "sd_getParent VarHelper = Some ListHelper"
| "sd_getParent NameHelper = Some VarHelper"
| "sd_getParent InitHelper = Some VarHelper"
| "sd_getParent BodyHelper = Some InitHelper"
| "sd_getParent _ = Some FileS"

definition secondModel :: "second SourceModel" where
  "secondModel = \<lparr>
     getSourceFiles = [FileS],
     getVariableDeclarations = (\<lambda>c. if c = FileS then [VarLog, VarHelper] else []),
     getFunctions = (\<lambda>c. if c = FileS then [FunMain] else []),
     getClasses = (\<lambda>c. []),
     getMethods = (\<lambda>c. []),
     getVariableStatement = (\<lambda>c. if c = VarLog then Some StmtLog
                                   else if c = VarHelper then Some StmtHelper else None),
     getDeclarations = (\<lambda>c. if c = StmtLog then [VarLog]
                              else if c = StmtHelper then [VarHelper] else []),
     getKind = sd_getKind,
     isExported = (\<lambda>c. c = VarLog \<or> c = FunMain),
     getInitializer = (\<lambda>c. if c = VarLog then Some InitLog
                             else if c = VarHelper then Some InitHelper else None),
     getBody = (\<lambda>c. if c = FunMain then Some BodyMain
                      else if c = InitHelper then Some BodyHelper else None),
     getDescendantCalls = (\<lambda>c. if c = BodyMain \<or> c = StmtMain \<or> c = FunMain then [CallLogMain]
                                 else if c = StmtLogCall then [CallLogCall]
                                 else if c = StmtLog \<or> c = ListLog \<or> c = VarLog then [InitLog]
                                 else if c = FileS then [InitLog, CallLogCall, CallLogMain]
                                 else []),
     getExpression = (\<lambda>c. if c = CallLogCall then AccessLogCall
                            else if c = CallLogMain then RefLogMain else c),
     getDefinitionNodes = (\<lambda>c. if c = RefLogMain then [VarLog, SigLog]
                                 else if c = NameLog \<or> c = RefLogCall then [VarLog]
                                 else if c = NameHelper then [VarHelper] else []),
     getArguments = (\<lambda>c. if c = CallLogCall then [ArgNull] else []),
     findReferences = (\<lambda>c. if c = VarLog then [[NameLog, RefLogCall, RefLogMain]]
                             else if c = VarHelper then [[NameHelper]] else []),
     getParent = sd_getParent,
     getSymbolName = (\<lambda>c. if c = VarLog then Some ''log''
                            else if c = VarHelper then Some ''helper''
                            else if c = FunMain then Some ''main'' else None) \<rparr>"

definition secondGraph :: "second CodeFlowGraph" where
  "secondGraph = (case initialize secondModel 5 newGraph of Returns g \<Rightarrow> g | _ \<Rightarrow> newGraph)"

definition abortModel :: "second SourceModel" where
  "abortModel = secondModel \<lparr> isExported := (\<lambda>c. c = FunMain) \<rparr>"

definition thrown :: "'a result \<Rightarrow> error option" where
  "thrown r = (case r of Throws e \<Rightarrow> Some e | _ \<Rightarrow> None)"

lemma second_build_returns: "initialize secondModel 5 newGraph = Returns secondGraph"
proof -
  have "isReturns (initialize secondModel 5 newGraph)" by code_simp
  then show ?thesis
    by (cases "initialize secondModel 5 newGraph") (simp_all add: isReturns_def secondGraph_def)
qed

lemma abort_build_throws: "initialize abortModel 5 newGraph = Throws UndefinedOutgoing"
proof -
  have "thrown (initialize abortModel 5 newGraph) = Some UndefinedOutgoing" by code_simp
  then show ?thesis
    by (cases "initialize abortModel 5 newGraph") (simp_all add: thrown_def)
qed

section \<open>Edge pair coalescing\<close>

text \<open>
  A graph that holds two nodes and no edge, built with the registry alone: node \<open>0\<close> for
  a construct \<open>10\<close> and node \<open>1\<close> for a construct \<open>11\<close>.
\<close>

definition twoNodes :: "nat CodeFlowGraph" where
  "twoNodes = snd (addNode 11 NCall (snd (addNode 10 NFunction newGraph)))"

definition requestTwice :: "(EdgeInfo \<times> bool \<times> nat CodeFlowGraph) \<times> (EdgeInfo \<times> bool \<times> nat CodeFlowGraph)" where
  "requestTwice =
     (let first = addEdgeIsNew 0 1 EChild twoNodes;
          second = addEdgeIsNew 0 1 EChild (snd (snd first))
      in (first, second))"

text \<open>
  Claim C1 (edge pair coalescing), evaluated on the code. The claim says that a second
  \<^verbatim>\<open>addEdge\<close> request for an ordered pair that is already linked returns the existing
  edge with \<^verbatim>\<open>isNew = false\<close> and grows neither the edge store nor the adjacency lists.
  On the code, the second request for the pair \<open>(0, 1)\<close> answers \<^verbatim>\<open>isNew = true\<close> with a
  fresh edge of id \<open>1\<close>; afterwards the store holds two edges from node \<open>0\<close> to node \<open>1\<close>,
  node \<open>0\<close> has two outgoing and node \<open>1\<close> two incoming edges. The map \<^verbatim>\<open>edgeInfo\<close> that
  the lookup reads is still empty, because \<^verbatim>\<open>addEdgeIsNew\<close> never writes it.
\<close>

theorem addEdgeIsNew_second_request_creates_duplicate:
  "fst (snd (snd requestTwice)) = True
   \<and> fst (fst requestTwice) = \<lparr> source = 0, destination = 1, edgeId = 0, edgeType = EChild \<rparr>
   \<and> fst (snd requestTwice) = \<lparr> source = 0, destination = 1, edgeId = 1, edgeType = EChild \<rparr>
   \<and> edges (snd (snd (snd requestTwice)))
       = [(0, \<lparr> source = 0, destination = 1, edgeId = 0, edgeType = EChild \<rparr>),
          (1, \<lparr> source = 0, destination = 1, edgeId = 1, edgeType = EChild \<rparr>)]
   \<and> map edgeId (outgoingOf (snd (snd (snd requestTwice))) 0) = [0, 1]
   \<and> map (\<lambda>(k, n). (k, map edgeId (incoming n))) (nodes (snd (snd (snd requestTwice))))
       = [(0, []), (1, [0, 1])]
   \<and> edgeInfo (snd (snd (snd requestTwice))) = Map.empty"
  by (simp add: requestTwice_def twoNodes_def addEdgeIsNew_def addNode_def addNodeIsNew_def
        newGraph_def addOutgoing_def addIncoming_def outgoingOf_def Map_set_def Map_get_def
        Let_def)

section \<open>Invariants of the store\<close>

definition nodeTypeOf :: "'c CodeFlowGraph \<Rightarrow> nat \<Rightarrow> NodeType option" where
  "nodeTypeOf g k = map_option nodeType (Map_get (nodes g) k)"

definition extends :: "'c CodeFlowGraph \<Rightarrow> 'c CodeFlowGraph \<Rightarrow> bool" where
  "extends g g' \<longleftrightarrow>
     edgeInfo g' = edgeInfo g
     \<and> (\<forall>c k. nodeToInfo g c = Some k \<longrightarrow> nodeToInfo g' c = Some k)
     \<and> (\<forall>k nd. Map_get (nodes g) k = Some nd \<longrightarrow>
           (\<exists>nd'. Map_get (nodes g') k = Some nd' \<and> nodeType nd' = nodeType nd \<and> node nd' = node nd))"

definition registry_ok :: "'c CodeFlowGraph \<Rightarrow> bool" where
  "registry_ok g \<longleftrightarrow>
     distinct (map fst (nodes g))
     \<and> (\<forall>c k. nodeToInfo g c = Some k \<longrightarrow> (\<exists>nd. Map_get (nodes g) k = Some nd \<and> node nd = c))
     \<and> (\<forall>k nd. Map_get (nodes g) k = Some nd \<longrightarrow>
           k < NEXT_NODE_ID g \<and> nodeId nd = k \<and> nodeToInfo g (node nd) = Some k)"

definition argument_ok :: "'c CodeFlowGraph \<Rightarrow> bool" where
  "argument_ok g \<longleftrightarrow>
     distinct (map fst (edges g))
     \<and> (\<forall>k nd e. Map_get (nodes g) k = Some nd \<longrightarrow> e \<in> set (outgoing nd) \<longrightarrow>
         edgeType e = EArgument \<longrightarrow> nodeType nd = NCall)
     \<and> (\<forall>i e. Map_get (edges g) i = Some e \<longrightarrow> edgeType e = EArgument \<longrightarrow>
           nodeTypeOf g (source e) = Some NCall)"

definition kinds_ok :: "'c SourceModel \<Rightarrow> bool" where
  "kinds_ok sm \<longleftrightarrow>
     (\<forall>c x. x \<in> set (getDescendantCalls sm c) \<longrightarrow> getKind sm x = CallExpression)
     \<and> (\<forall>c a. a \<in> set (getArguments sm c) \<longrightarrow> getKind sm a \<noteq> VariableDeclaration)
     \<and> (\<forall>c f. f \<in> set (getFunctions sm c) \<longrightarrow> getKind sm f = FunctionDeclaration)
     \<and> (\<forall>c m. m \<in> set (getMethods sm c) \<longrightarrow> getKind sm m = MethodDeclaration)"

definition exported_ok :: "'c SourceModel \<Rightarrow> 'c CodeFlowGraph \<Rightarrow> bool" where
  "exported_ok sm g \<longleftrightarrow>
     (\<forall>c k. nodeToInfo g c = Some k \<longrightarrow> getKind sm c = VariableDeclaration \<longrightarrow> isExported sm c)"

definition may_register :: "'c SourceModel \<Rightarrow> 'c \<Rightarrow> bool" where
  "may_register sm c \<longleftrightarrow> (getKind sm c = VariableDeclaration \<longrightarrow> isExported sm c)"

definition inv :: "bool \<Rightarrow> 'c SourceModel \<Rightarrow> 'c CodeFlowGraph \<Rightarrow> bool" where
  "inv K sm g \<longleftrightarrow> registry_ok g \<and> argument_ok g \<and> (K \<longrightarrow> exported_ok sm g)"

lemma Map_get_set [simp]:
  "Map_get (Map_set k v m) k' = (if k' = k then Some v else Map_get m k')"
  by (simp add: Map_get_def Map_set_def update_conv')

lemma distinct_Map_set:
  "distinct (map fst m) \<Longrightarrow> distinct (map fst (Map_set k v m))"
  by (simp add: Map_set_def distinct_update)

lemma andThen_Returns_iff:
  "andThen m f = Returns y \<longleftrightarrow> (\<exists>x. m = Returns x \<and> f x = Returns y)"
  by (cases m) auto

lemma andThen_Diverges_iff:
  "andThen m f = Diverges \<longleftrightarrow> m = Diverges \<or> (\<exists>x. m = Returns x \<and> f x = Diverges)"
  by (cases m) auto

lemma extends_refl [simp]: "extends g g"
  by (simp add: extends_def)

lemma extends_trans:
  assumes "extends g h" and "extends h k"
  shows "extends g k"
proof -
  have 1: "nodeToInfo k c = Some j" if "nodeToInfo g c = Some j" for c j
    using that assms unfolding extends_def by blast
  have 2: "\<exists>nd'. Map_get (nodes k) j = Some nd' \<and> nodeType nd' = nodeType nd \<and> node nd' = node nd"
    if old: "Map_get (nodes g) j = Some nd" for j nd
  proof -
    obtain nd1 where nd1: "Map_get (nodes h) j = Some nd1" "nodeType nd1 = nodeType nd" "node nd1 = node nd"
      using old assms(1) unfolding extends_def by blast
    obtain nd2 where "Map_get (nodes k) j = Some nd2" "nodeType nd2 = nodeType nd1" "node nd2 = node nd1"
      using nd1(1) assms(2) unfolding extends_def by blast
    then show ?thesis using nd1 by simp
  qed
  have 3: "edgeInfo k = edgeInfo g" using assms unfolding extends_def by simp
  show ?thesis unfolding extends_def using 1 2 3 by blast
qed

lemma forEach_invariant:
  assumes "forEach body xs g = Returns g'" and "Q g"
    and "\<And>x h h'. x \<in> set xs \<Longrightarrow> Q h \<Longrightarrow> body x h = Returns h' \<Longrightarrow> Q h'"
  shows "Q g'"
  using assms
proof (induction xs arbitrary: g)
  case Nil
  then show ?case by simp
next
  case (Cons x xs)
  from Cons.prems(1) obtain h where h: "body x g = Returns h" "forEach body xs h = Returns g'"
    by (auto simp: andThen_Returns_iff)
  have Qh: "Q h" using Cons.prems(3) [of x g h] Cons.prems(2) h(1) by simp
  show ?case
  proof (rule Cons.IH [OF h(2) Qh])
    fix y k k' assume "y \<in> set xs" "Q k" "body y k = Returns k'"
    then show "Q k'" using Cons.prems(3) [of y k k'] by simp
  qed
qed

lemma forEach_terminates:
  assumes "Q g"
    and "\<And>x h. x \<in> set xs \<Longrightarrow> Q h \<Longrightarrow> body x h \<noteq> Diverges"
    and "\<And>x h h'. x \<in> set xs \<Longrightarrow> Q h \<Longrightarrow> body x h = Returns h' \<Longrightarrow> Q h'"
  shows "forEach body xs g \<noteq> Diverges"
  using assms
proof (induction xs arbitrary: g)
  case Nil
  then show ?case by simp
next
  case (Cons x xs)
  show ?case
  proof (cases "body x g")
    case Diverges
    then show ?thesis using Cons.prems(2) [of x g] Cons.prems(1) by simp
  next
    case (Throws e)
    then show ?thesis by simp
  next
    case (Returns h)
    then have Qh: "Q h" using Cons.prems(3) [of x g h] Cons.prems(1) by simp
    have "forEach body xs h \<noteq> Diverges"
    proof (rule Cons.IH [OF Qh])
      fix y k assume "y \<in> set xs" "Q k"
      then show "body y k \<noteq> Diverges" using Cons.prems(2) [of y k] by simp
    next
      fix y k k' assume "y \<in> set xs" "Q k" "body y k = Returns k'"
      then show "Q k'" using Cons.prems(3) [of y k k'] by simp
    qed
    then show ?thesis using Returns by simp
  qed
qed

subsection \<open>Registry primitives\<close>

lemma addNodeIsNew_old:
  "nodeToInfo g c = Some k \<Longrightarrow> addNodeIsNew c ty g = (k, False, g)"
  by (simp add: addNodeIsNew_def)

lemma addNodeIsNew_isNew:
  "addNodeIsNew c ty g = (k, isNew, g') \<Longrightarrow> isNew \<longleftrightarrow> nodeToInfo g c = None"
  by (auto simp: addNodeIsNew_def Let_def split: option.splits)

lemma addNodeIsNew_new:
  assumes "nodeToInfo g c = None"
  shows "addNodeIsNew c ty g =
           (NEXT_NODE_ID g, True,
            g\<lparr> nodes := Map_set (NEXT_NODE_ID g)
                           \<lparr> node = c, incoming = [], outgoing = [],
                             nodeId = NEXT_NODE_ID g, nodeType = ty \<rparr> (nodes g),
               nodeToInfo := (nodeToInfo g)(c \<mapsto> NEXT_NODE_ID g),
               NEXT_NODE_ID := NEXT_NODE_ID g + 1 \<rparr>)"
  using assms by (simp add: addNodeIsNew_def Let_def)

lemma registry_fresh:
  assumes "registry_ok g"
  shows "Map_get (nodes g) (NEXT_NODE_ID g) = None"
proof (cases "Map_get (nodes g) (NEXT_NODE_ID g)")
  case None
  then show ?thesis .
next
  case (Some nd)
  then have "NEXT_NODE_ID g < NEXT_NODE_ID g"
    using assms unfolding registry_ok_def by blast
  then show ?thesis by simp
qed

lemma addNodeIsNew_registry_ok:
  assumes ok: "registry_ok g" and none: "nodeToInfo g c = None"
  shows "registry_ok (g\<lparr> nodes := Map_set (NEXT_NODE_ID g)
                           \<lparr> node = c, incoming = [], outgoing = [],
                             nodeId = NEXT_NODE_ID g, nodeType = ty \<rparr> (nodes g),
               nodeToInfo := (nodeToInfo g)(c \<mapsto> NEXT_NODE_ID g),
               NEXT_NODE_ID := NEXT_NODE_ID g + 1 \<rparr>)" (is "registry_ok ?g'")
proof -
  have fresh: "Map_get (nodes g) (NEXT_NODE_ID g) = None"
    using ok by (rule registry_fresh)
  have d: "distinct (map fst (nodes ?g'))"
    using ok by (simp add: registry_ok_def distinct_Map_set)
  have r2: "\<exists>nd. Map_get (nodes ?g') k' = Some nd \<and> node nd = c'"
    if "nodeToInfo ?g' c' = Some k'" for c' k'
  proof (cases "c' = c")
    case True
    then show ?thesis using that by simp
  next
    case False
    then have "nodeToInfo g c' = Some k'" using that by simp
    then obtain nd where nd: "Map_get (nodes g) k' = Some nd" "node nd = c'"
      using ok unfolding registry_ok_def by blast
    then have "k' \<noteq> NEXT_NODE_ID g" using fresh by auto
    then show ?thesis using nd by simp
  qed
  have r3: "k < NEXT_NODE_ID ?g' \<and> nodeId nd = k \<and> nodeToInfo ?g' (node nd) = Some k"
    if "Map_get (nodes ?g') k = Some nd" for k nd
  proof (cases "k = NEXT_NODE_ID g")
    case True
    then show ?thesis using that by auto
  next
    case False
    then have old: "Map_get (nodes g) k = Some nd" using that by simp
    then have *: "k < NEXT_NODE_ID g" "nodeId nd = k" "nodeToInfo g (node nd) = Some k"
      using ok unfolding registry_ok_def by blast+
    then have "node nd \<noteq> c" using none by auto
    then show ?thesis using * by simp
  qed
  show ?thesis unfolding registry_ok_def using d r2 r3 by blast
qed

lemma registry_injective:
  assumes "registry_ok g" and "nodeToInfo g c = Some k" and "nodeToInfo g c' = Some k"
  shows "c = c'"
proof -
  obtain nd where "Map_get (nodes g) k = Some nd" "node nd = c"
    using assms(1,2) unfolding registry_ok_def by blast
  moreover obtain nd' where "Map_get (nodes g) k = Some nd'" "node nd' = c'"
    using assms(1,3) unfolding registry_ok_def by blast
  ultimately show ?thesis by simp
qed

lemma addNodeIsNew_inv:
  assumes "inv K sm g" and "addNodeIsNew c ty g = (k, isNew, g')" and "K \<longrightarrow> may_register sm c"
  shows "inv K sm g'"
proof (cases "nodeToInfo g c")
  case (Some a)
  then show ?thesis using assms by (simp add: addNodeIsNew_old)
next
  case None
  have ok: "registry_ok g" using assms(1) by (simp add: inv_def)
  have fresh: "Map_get (nodes g) (NEXT_NODE_ID g) = None"
    using ok by (rule registry_fresh)
  have g': "g' = g\<lparr> nodes := Map_set (NEXT_NODE_ID g)
                           \<lparr> node = c, incoming = [], outgoing = [],
                             nodeId = NEXT_NODE_ID g, nodeType = ty \<rparr> (nodes g),
               nodeToInfo := (nodeToInfo g)(c \<mapsto> NEXT_NODE_ID g),
               NEXT_NODE_ID := NEXT_NODE_ID g + 1 \<rparr>"
    using assms(2) None by (auto simp: addNodeIsNew_new)
  have r: "registry_ok g'"
    unfolding g' using ok None by (rule addNodeIsNew_registry_ok)
  have arg: "argument_ok g" using assms(1) by (simp add: inv_def)
  have a1: "nodeType nd = NCall"
    if "Map_get (nodes g') j = Some nd" "e \<in> set (outgoing nd)" "edgeType e = EArgument" for j nd e
  proof (cases "j = NEXT_NODE_ID g")
    case True
    then show ?thesis using that unfolding g' by auto
  next
    case False
    then have "Map_get (nodes g) j = Some nd" using that(1) unfolding g' by simp
    then show ?thesis using arg that(2,3) unfolding argument_ok_def by blast
  qed
  have a2: "nodeTypeOf g' (source e) = Some NCall"
    if "Map_get (edges g') i = Some e" "edgeType e = EArgument" for i e
  proof -
    have "Map_get (edges g) i = Some e" using that(1) unfolding g' by simp
    then have *: "nodeTypeOf g (source e) = Some NCall"
      using arg that(2) unfolding argument_ok_def by blast
    then have "source e \<noteq> NEXT_NODE_ID g" using fresh by (auto simp: nodeTypeOf_def)
    then show ?thesis using * unfolding g' by (simp add: nodeTypeOf_def)
  qed
  have a0: "distinct (map fst (edges g'))"
    using arg unfolding g' argument_ok_def by simp
  have a: "argument_ok g'"
    unfolding argument_ok_def using a0 a1 a2 by blast
  have e: "K \<longrightarrow> exported_ok sm g'"
    using assms(1,3) unfolding inv_def exported_ok_def g' may_register_def
    by auto
  show ?thesis using r a e by (simp add: inv_def)
qed

lemma addNodeIsNew_extends:
  assumes "registry_ok g" and "addNodeIsNew c ty g = (k, isNew, g')"
  shows "extends g g'"
proof (cases "nodeToInfo g c")
  case (Some a)
  then show ?thesis using assms by (simp add: addNodeIsNew_old)
next
  case None
  have fresh: "Map_get (nodes g) (NEXT_NODE_ID g) = None"
    using assms(1) by (simp add: registry_fresh)
  have g': "g' = g\<lparr> nodes := Map_set (NEXT_NODE_ID g)
                           \<lparr> node = c, incoming = [], outgoing = [],
                             nodeId = NEXT_NODE_ID g, nodeType = ty \<rparr> (nodes g),
               nodeToInfo := (nodeToInfo g)(c \<mapsto> NEXT_NODE_ID g),
               NEXT_NODE_ID := NEXT_NODE_ID g + 1 \<rparr>"
    using assms(2) None by (auto simp: addNodeIsNew_new)
  have 1: "nodeToInfo g' c' = Some k'" if "nodeToInfo g c' = Some k'" for c' k'
    using that None unfolding g' by auto
  have 2: "\<exists>nd'. Map_get (nodes g') j = Some nd' \<and> nodeType nd' = nodeType nd \<and> node nd' = node nd"
    if "Map_get (nodes g) j = Some nd" for j nd
  proof -
    have "j \<noteq> NEXT_NODE_ID g" using that fresh by auto
    then show ?thesis using that unfolding g' by simp
  qed
  have 3: "edgeInfo g' = edgeInfo g" unfolding g' by simp
  show ?thesis unfolding extends_def using 1 2 3 by blast
qed

lemma addNodeIsNew_registered:
  "addNodeIsNew c ty g = (k, isNew, g') \<Longrightarrow> nodeToInfo g' c = Some k"
  by (auto simp: addNodeIsNew_def Let_def split: option.splits)

lemma addNodeIsNew_type:
  "addNodeIsNew c ty g = (k, True, g') \<Longrightarrow> nodeTypeOf g' k = Some ty \<and> outgoingOf g' k = []"
  by (auto simp: addNodeIsNew_def Let_def nodeTypeOf_def outgoingOf_def split: option.splits)

subsection \<open>Edge primitives\<close>

lemma addOutgoing_fields [simp]:
  "nodeToInfo (addOutgoing k e g) = nodeToInfo g"
  "NEXT_NODE_ID (addOutgoing k e g) = NEXT_NODE_ID g"
  "NEXT_EDGE_ID (addOutgoing k e g) = NEXT_EDGE_ID g"
  "edges (addOutgoing k e g) = edges g"
  "edgeInfo (addOutgoing k e g) = edgeInfo g"
  by (simp_all add: addOutgoing_def split: option.splits)

lemma addIncoming_fields [simp]:
  "nodeToInfo (addIncoming k e g) = nodeToInfo g"
  "NEXT_NODE_ID (addIncoming k e g) = NEXT_NODE_ID g"
  "NEXT_EDGE_ID (addIncoming k e g) = NEXT_EDGE_ID g"
  "edges (addIncoming k e g) = edges g"
  "edgeInfo (addIncoming k e g) = edgeInfo g"
  by (simp_all add: addIncoming_def split: option.splits)

lemma addOutgoing_nodes:
  "Map_get (nodes (addOutgoing k e g)) j =
     (if j = k then map_option (\<lambda>n. n\<lparr> outgoing := outgoing n @ [e] \<rparr>) (Map_get (nodes g) k)
      else Map_get (nodes g) j)"
  by (simp add: addOutgoing_def split: option.splits)

lemma addIncoming_nodes:
  "Map_get (nodes (addIncoming k e g)) j =
     (if j = k then map_option (\<lambda>n. n\<lparr> incoming := incoming n @ [e] \<rparr>) (Map_get (nodes g) k)
      else Map_get (nodes g) j)"
  by (simp add: addIncoming_def split: option.splits)

lemma addOutgoing_distinct:
  "distinct (map fst (nodes g)) \<Longrightarrow> distinct (map fst (nodes (addOutgoing k e g)))"
  by (simp add: addOutgoing_def distinct_Map_set split: option.splits)

lemma addIncoming_distinct:
  "distinct (map fst (nodes g)) \<Longrightarrow> distinct (map fst (nodes (addIncoming k e g)))"
  by (simp add: addIncoming_def distinct_Map_set split: option.splits)

text \<open>What a successful or an unsuccessful request leaves in the store of nodes.\<close>

definition linked :: "nat \<Rightarrow> nat \<Rightarrow> EdgeInfo list \<Rightarrow> 'c NodeInfo \<Rightarrow> 'c NodeInfo \<Rightarrow> bool" where
  "linked k s new nd nd' \<longleftrightarrow>
     node nd' = node nd \<and> nodeId nd' = nodeId nd \<and> nodeType nd' = nodeType nd
     \<and> outgoing nd' = outgoing nd @ (if k = s then new else [])"

lemma addEdge_nodes:
  "\<exists>new. set new \<subseteq> {\<lparr> source = s, destination = d, edgeId = NEXT_EDGE_ID g, edgeType = ty \<rparr>}
     \<and> (\<forall>k. (Map_get (nodes g) k = None \<longrightarrow> Map_get (nodes (snd (addEdge s d ty g))) k = None)
           \<and> (\<forall>nd. Map_get (nodes g) k = Some nd \<longrightarrow>
                 (\<exists>nd'. Map_get (nodes (snd (addEdge s d ty g))) k = Some nd' \<and> linked k s new nd nd')))"
proof (cases "edgeInfo g (s, d)")
  case (Some a)
  then have "snd (addEdge s d ty g) = g" by (simp add: addEdge_def addEdgeIsNew_def)
  then show ?thesis by (intro exI [of _ "[]"]) (simp add: linked_def)
next
  case None
  let ?e = "\<lparr> source = s, destination = d, edgeId = NEXT_EDGE_ID g, edgeType = ty \<rparr>"
  have eq: "\<And>k. Map_get (nodes (snd (addEdge s d ty g))) k =
          Map_get (nodes (addIncoming d ?e (addOutgoing s ?e (g\<lparr> edges := Map_set (NEXT_EDGE_ID g) ?e (edges g) \<rparr>)))) k"
    using None by (simp add: addEdge_def addEdgeIsNew_def Let_def)
  show ?thesis
  proof (intro exI [of _ "[?e]"] conjI allI impI)
    show "set [?e] \<subseteq> {?e}" by simp
  next
    fix k assume "Map_get (nodes g) k = None"
    then show "Map_get (nodes (snd (addEdge s d ty g))) k = None"
      by (auto simp: eq addIncoming_nodes addOutgoing_nodes)
  next
    fix k nd assume "Map_get (nodes g) k = Some nd"
    then show "\<exists>nd'. Map_get (nodes (snd (addEdge s d ty g))) k = Some nd' \<and> linked k s [?e] nd nd'"
      by (auto simp: eq addIncoming_nodes addOutgoing_nodes linked_def)
  qed
qed

lemma addEdge_fields [simp]:
  "nodeToInfo (snd (addEdge s d ty g)) = nodeToInfo g"
  "NEXT_NODE_ID (snd (addEdge s d ty g)) = NEXT_NODE_ID g"
  "edgeInfo (snd (addEdge s d ty g)) = edgeInfo g"
  by (simp_all add: addEdge_def addEdgeIsNew_def Let_def split: option.splits)

lemma addEdge_distinct:
  "distinct (map fst (nodes g)) \<Longrightarrow> distinct (map fst (nodes (snd (addEdge s d ty g))))"
  by (simp add: addEdge_def addEdgeIsNew_def Let_def addOutgoing_distinct addIncoming_distinct
      split: option.splits)

lemma addEdge_edges_distinct:
  "distinct (map fst (edges g)) \<Longrightarrow> distinct (map fst (edges (snd (addEdge s d ty g))))"
  by (simp add: addEdge_def addEdgeIsNew_def Let_def distinct_Map_set split: option.splits)

lemma addEdge_edges:
  "Map_get (edges (snd (addEdge s d ty g))) i = Some e \<Longrightarrow>
     Map_get (edges g) i = Some e
     \<or> e = \<lparr> source = s, destination = d, edgeId = NEXT_EDGE_ID g, edgeType = ty \<rparr>"
  by (auto simp: addEdge_def addEdgeIsNew_def Let_def split: option.splits if_splits)

lemma addEdge_nodeTypeOf [simp]:
  "nodeTypeOf (snd (addEdge s d ty g)) k = nodeTypeOf g k"
proof -
  obtain new where
    *: "\<forall>k. (Map_get (nodes g) k = None \<longrightarrow> Map_get (nodes (snd (addEdge s d ty g))) k = None)
           \<and> (\<forall>nd. Map_get (nodes g) k = Some nd \<longrightarrow>
                 (\<exists>nd'. Map_get (nodes (snd (addEdge s d ty g))) k = Some nd' \<and> linked k s new nd nd'))"
    using addEdge_nodes [of s d g ty] by blast
  show ?thesis
  proof (cases "Map_get (nodes g) k")
    case None
    then show ?thesis using * by (simp add: nodeTypeOf_def)
  next
    case (Some nd)
    then obtain nd' where "Map_get (nodes (snd (addEdge s d ty g))) k = Some nd'" "linked k s new nd nd'"
      using * by blast
    then show ?thesis using Some by (simp add: nodeTypeOf_def linked_def)
  qed
qed

lemma addEdge_outgoingOf_other:
  assumes "k \<noteq> s"
  shows "outgoingOf (snd (addEdge s d ty g)) k = outgoingOf g k"
proof -
  obtain new where
    *: "\<forall>k. (Map_get (nodes g) k = None \<longrightarrow> Map_get (nodes (snd (addEdge s d ty g))) k = None)
           \<and> (\<forall>nd. Map_get (nodes g) k = Some nd \<longrightarrow>
                 (\<exists>nd'. Map_get (nodes (snd (addEdge s d ty g))) k = Some nd' \<and> linked k s new nd nd'))"
    using addEdge_nodes [of s d g ty] by blast
  show ?thesis
  proof (cases "Map_get (nodes g) k")
    case None
    then show ?thesis using * by (simp add: outgoingOf_def)
  next
    case (Some nd)
    then obtain nd' where "Map_get (nodes (snd (addEdge s d ty g))) k = Some nd'" "linked k s new nd nd'"
      using * by blast
    then show ?thesis using Some assms by (simp add: outgoingOf_def linked_def)
  qed
qed

lemma addEdge_extends: "extends g (snd (addEdge s d ty g))"
proof -
  obtain new where
    *: "\<forall>k. (Map_get (nodes g) k = None \<longrightarrow> Map_get (nodes (snd (addEdge s d ty g))) k = None)
           \<and> (\<forall>nd. Map_get (nodes g) k = Some nd \<longrightarrow>
                 (\<exists>nd'. Map_get (nodes (snd (addEdge s d ty g))) k = Some nd' \<and> linked k s new nd nd'))"
    using addEdge_nodes [of s d g ty] by blast
  have "\<exists>nd'. Map_get (nodes (snd (addEdge s d ty g))) k = Some nd' \<and> nodeType nd' = nodeType nd \<and> node nd' = node nd"
    if old: "Map_get (nodes g) k = Some nd" for k nd
  proof -
    obtain nd' where "Map_get (nodes (snd (addEdge s d ty g))) k = Some nd'" "linked k s new nd nd'"
      using * old by blast
    then show ?thesis by (auto simp: linked_def)
  qed
  then show ?thesis unfolding extends_def by simp
qed

lemma addEdge_inv:
  assumes i: "inv K sm g" and call: "ty = EArgument \<longrightarrow> nodeTypeOf g s = Some NCall"
  shows "inv K sm (snd (addEdge s d ty g))" (is "inv K sm ?g'")
proof -
  let ?e = "\<lparr> source = s, destination = d, edgeId = NEXT_EDGE_ID g, edgeType = ty \<rparr>"
  obtain new where new: "set new \<subseteq> {?e}" and
    *: "\<forall>k. (Map_get (nodes g) k = None \<longrightarrow> Map_get (nodes ?g') k = None)
           \<and> (\<forall>nd. Map_get (nodes g) k = Some nd \<longrightarrow>
                 (\<exists>nd'. Map_get (nodes ?g') k = Some nd' \<and> linked k s new nd nd'))"
    using addEdge_nodes [of s d g ty] by blast
  have prev: "\<exists>nd. Map_get (nodes g) k = Some nd \<and> linked k s new nd nd'"
    if new': "Map_get (nodes ?g') k = Some nd'" for k nd'
  proof (cases "Map_get (nodes g) k")
    case None
    then show ?thesis using * new' by simp
  next
    case (Some nd)
    then obtain nd2 where "Map_get (nodes ?g') k = Some nd2" "linked k s new nd nd2"
      using * by blast
    then show ?thesis using Some new' by simp
  qed
  have ok: "registry_ok g" and arg: "argument_ok g" and ex: "K \<longrightarrow> exported_ok sm g"
    using i by (simp_all add: inv_def)
  have r2: "\<exists>nd. Map_get (nodes ?g') k = Some nd \<and> node nd = c"
    if reg: "nodeToInfo ?g' c = Some k" for c k
  proof -
    obtain nd where nd: "Map_get (nodes g) k = Some nd" "node nd = c"
      using ok reg unfolding registry_ok_def by auto
    then obtain nd' where "Map_get (nodes ?g') k = Some nd'" "linked k s new nd nd'"
      using * by blast
    then show ?thesis using nd by (auto simp: linked_def)
  qed
  have r3: "k < NEXT_NODE_ID ?g' \<and> nodeId nd' = k \<and> nodeToInfo ?g' (node nd') = Some k"
    if new': "Map_get (nodes ?g') k = Some nd'" for k nd'
  proof -
    obtain nd where nd: "Map_get (nodes g) k = Some nd" "linked k s new nd nd'"
      using prev [OF new'] by blast
    then have "k < NEXT_NODE_ID g \<and> nodeId nd = k \<and> nodeToInfo g (node nd) = Some k"
      using ok unfolding registry_ok_def by blast
    then show ?thesis using nd(2) by (simp add: linked_def)
  qed
  have r: "registry_ok ?g'"
    unfolding registry_ok_def using ok r2 r3 by (simp add: registry_ok_def addEdge_distinct)
  have a1: "nodeType nd' = NCall"
    if new': "Map_get (nodes ?g') k = Some nd'" and e: "e \<in> set (outgoing nd')" "edgeType e = EArgument"
    for k nd' e
  proof -
    obtain nd where nd: "Map_get (nodes g) k = Some nd" "linked k s new nd nd'"
      using prev [OF new'] by blast
    show ?thesis
    proof (cases "e \<in> set (outgoing nd)")
      case True
      then have "nodeType nd = NCall" using arg nd(1) e(2) unfolding argument_ok_def by blast
      then show ?thesis using nd(2) by (simp add: linked_def)
    next
      case False
      then have "k = s" "e \<in> set new" using nd(2) e(1) by (auto simp: linked_def split: if_splits)
      then have "e = ?e" using new by auto
      then have "ty = EArgument" using e(2) by simp
      then have "nodeTypeOf g s = Some NCall" using call by simp
      then have "nodeType nd = NCall" using nd(1) \<open>k = s\<close> by (simp add: nodeTypeOf_def)
      then show ?thesis using nd(2) by (simp add: linked_def)
    qed
  qed
  have a2: "nodeTypeOf ?g' (source e) = Some NCall"
    if st: "Map_get (edges ?g') j = Some e" and ty: "edgeType e = EArgument" for j e
  proof -
    from addEdge_edges [OF st] show ?thesis
    proof
      assume "Map_get (edges g) j = Some e"
      then show ?thesis using arg ty unfolding argument_ok_def by simp
    next
      assume "e = ?e"
      then show ?thesis using ty call by simp
    qed
  qed
  have a0: "distinct (map fst (edges ?g'))"
    using arg unfolding argument_ok_def by (simp add: addEdge_edges_distinct)
  have a: "argument_ok ?g'" unfolding argument_ok_def using a0 a1 a2 by blast
  have e: "K \<longrightarrow> exported_ok sm ?g'"
    using ex by (simp add: exported_ok_def)
  show ?thesis using r a e by (simp add: inv_def)
qed

subsection \<open>The splice loop\<close>

definition spliceAll :: "nat \<Rightarrow> EdgeInfo list \<Rightarrow> 'c CodeFlowGraph \<Rightarrow> 'c CodeFlowGraph" where
  "spliceAll src es g = fold (\<lambda>e h. snd (addEdge src (destination e) EChild h)) es g"

lemma spliceLoop_other:
  assumes "d \<noteq> s"
  shows "spliceLoop d s i g = Some (spliceAll s (drop i (outgoingOf g d)) g)"
proof (induction "length (outgoingOf g d) - i" arbitrary: i g)
  case 0
  then have "\<not> i < length (outgoingOf g d)" by simp
  then show ?case by (subst spliceLoop.simps) (simp add: spliceAll_def)
next
  case (Suc m)
  then have lt: "i < length (outgoingOf g d)" by simp
  let ?g1 = "snd (addEdge s (destination (outgoingOf g d ! i)) EChild g)"
  have same: "outgoingOf ?g1 d = outgoingOf g d"
    using assms by (rule addEdge_outgoingOf_other)
  have "m = length (outgoingOf ?g1 d) - Suc i" using Suc.hyps(2) same by simp
  then have "spliceLoop d s (Suc i) ?g1 = Some (spliceAll s (drop (Suc i) (outgoingOf ?g1 d)) ?g1)"
    by (rule Suc.hyps(1))
  moreover have "spliceLoop d s i g = spliceLoop d s (Suc i) ?g1"
    using lt by (subst spliceLoop.simps) simp
  moreover have "drop i (outgoingOf g d) = outgoingOf g d ! i # drop (Suc i) (outgoingOf g d)"
    using lt by (simp add: Cons_nth_drop_Suc)
  ultimately show ?case by (simp add: same spliceAll_def)
qed

lemma splice_other:
  "d \<noteq> s \<Longrightarrow> splice d s g = Returns (spliceAll s (outgoingOf g d) g)"
  by (simp add: splice_def spliceLoop_other)

lemma spliceLoop_invariant:
  assumes run: "spliceLoop d s i g = Some g'" and start: "Q g"
    and step: "\<And>x h. Q h \<Longrightarrow> Q (snd (addEdge s x EChild h))"
  shows "Q g'"
proof -
  have "s = s \<longrightarrow> Q g \<longrightarrow> Q g'"
  proof (rule spliceLoop.raw_induct [where P = "\<lambda>d' s' i' h y. s' = s \<longrightarrow> Q h \<longrightarrow> Q y", OF _ run])
    fix f :: "nat \<Rightarrow> nat \<Rightarrow> nat \<Rightarrow> 'a CodeFlowGraph \<Rightarrow> 'a CodeFlowGraph option"
    fix d' s' i' h y
    assume IH: "\<And>a b c e z. f a b c e = Some z \<Longrightarrow> b = s \<longrightarrow> Q e \<longrightarrow> Q z"
    assume eq: "(if i' < length (outgoingOf h d')
                 then f d' s' (Suc i') (snd (addEdge s' (destination (outgoingOf h d' ! i')) EChild h))
                 else Some h) = Some y"
    show "s' = s \<longrightarrow> Q h \<longrightarrow> Q y"
    proof (intro impI)
      assume s': "s' = s" and Qh: "Q h"
      show "Q y"
      proof (cases "i' < length (outgoingOf h d')")
        case True
        then have "f d' s' (Suc i') (snd (addEdge s' (destination (outgoingOf h d' ! i')) EChild h)) = Some y"
          using eq by simp
        from IH [OF this] show ?thesis using s' step [OF Qh] by simp
      next
        case False
        then show ?thesis using eq Qh by simp
      qed
    qed
  qed
  then show ?thesis using start by simp
qed

lemma splice_invariant:
  assumes "splice d s g = Returns g'" and "Q g"
    and "\<And>x h. Q h \<Longrightarrow> Q (snd (addEdge s x EChild h))"
  shows "Q g'"
proof -
  have "spliceLoop d s 0 g = Some g'"
    using assms(1) by (simp add: splice_def split: option.splits)
  then show ?thesis using assms(2,3) by (rule spliceLoop_invariant)
qed

subsection \<open>What every method keeps\<close>

lemma extends_nodeTypeOf:
  "extends g g' \<Longrightarrow> nodeTypeOf g k = Some t \<Longrightarrow> nodeTypeOf g' k = Some t"
  unfolding extends_def nodeTypeOf_def by fastforce

lemma extends_registered:
  "extends g g' \<Longrightarrow> nodeToInfo g c = Some k \<Longrightarrow> nodeToInfo g' c = Some k"
  unfolding extends_def by blast

definition good_process :: "bool \<Rightarrow> 'c SourceModel \<Rightarrow> 'c process \<Rightarrow> bool" where
  "good_process K sm P \<longleftrightarrow>
     (\<forall>c g r g'. inv K sm g \<longrightarrow> (K \<longrightarrow> may_register sm c) \<longrightarrow> P c g = Returns (r, g') \<longrightarrow>
        inv K sm g' \<and> extends g g' \<and> nodeToInfo g' c = Some r)"

definition good_processOpt :: "bool \<Rightarrow> 'c SourceModel \<Rightarrow> 'c processOpt \<Rightarrow> bool" where
  "good_processOpt K sm P \<longleftrightarrow>
     (\<forall>c g r g'. inv K sm g \<longrightarrow> P c g = Returns (r, g') \<longrightarrow>
        inv K sm g' \<and> extends g g' \<and> (\<forall>k. r = Some k \<longrightarrow> nodeToInfo g' c = Some k))"

definition good_processVar ::
  "bool \<Rightarrow> 'c SourceModel \<Rightarrow> ('c \<Rightarrow> bool \<Rightarrow> 'c CodeFlowGraph \<Rightarrow> (nat option \<times> 'c CodeFlowGraph) result) \<Rightarrow> bool" where
  "good_processVar K sm P \<longleftrightarrow>
     (\<forall>c b g r g'. inv K sm g \<longrightarrow> (K \<longrightarrow> b \<or> may_register sm c) \<longrightarrow>
        P c b g = Returns (r, g') \<longrightarrow>
        inv K sm g' \<and> extends g g' \<and> (\<forall>k. r = Some k \<longrightarrow> nodeToInfo g' c = Some k))"

lemma good_processD:
  assumes "good_process K sm P" "inv K sm g" "K \<longrightarrow> may_register sm c" "P c g = Returns (r, g')"
  shows "inv K sm g'" "extends g g'" "nodeToInfo g' c = Some r"
  using assms unfolding good_process_def by blast+

lemma good_processOptD:
  assumes "good_processOpt K sm P" "inv K sm g" "P c g = Returns (r, g')"
  shows "inv K sm g'" "extends g g'" "r = Some k \<Longrightarrow> nodeToInfo g' c = Some k"
  using assms unfolding good_processOpt_def by blast+

lemma good_processVarD:
  assumes "good_processVar K sm P" "inv K sm g" "K \<longrightarrow> b \<or> may_register sm c"
    "P c b g = Returns (r, g')"
  shows "inv K sm g'" "extends g g'" "r = Some k \<Longrightarrow> nodeToInfo g' c = Some k"
  using assms unfolding good_processVar_def by blast+

lemma linkEach_good:
  assumes P: "good_process K sm P" and i: "inv K sm g"
    and ty: "ty = EArgument \<longrightarrow> nodeTypeOf g src = Some NCall"
    and kinds: "K \<longrightarrow> (\<forall>c \<in> set calls. may_register sm c)"
    and run: "linkEach P src ty calls g = Returns g'"
  shows "inv K sm g' \<and> extends g g'"
proof -
  let ?Q = "\<lambda>h. inv K sm h \<and> extends g h"
  have "?Q g'"
  proof (rule forEach_invariant [OF run [unfolded linkEach_def], where Q = ?Q])
    show "?Q g" using i by simp
  next
    fix x h h'
    assume x: "x \<in> set calls" and Qh: "?Q h"
      and b: "andThen (P x h) (\<lambda>(info, g''). Returns (snd (addEdge src info ty g''))) = Returns h'"
    from b obtain callInfo h1 where 1: "P x h = Returns (callInfo, h1)"
      and h': "h' = snd (addEdge src callInfo ty h1)"
      by (auto simp: andThen_Returns_iff)
    have reg: "K \<longrightarrow> may_register sm x" using kinds x by blast
    have h1: "inv K sm h1" "extends h h1"
      using good_processD [OF P _ reg 1] Qh by simp_all
    have "extends g h1" using Qh h1(2) extends_trans by blast
    then have t: "ty = EArgument \<longrightarrow> nodeTypeOf h1 src = Some NCall"
      using ty by (blast intro: extends_nodeTypeOf)
    have "inv K sm h'" unfolding h' using h1(1) t by (rule addEdge_inv)
    moreover have "extends g h'"
      unfolding h' using \<open>extends g h1\<close> addEdge_extends by (rule extends_trans)
    ultimately show "?Q h'" by simp
  qed
  then show ?thesis .
qed

lemma registered_loop_good:
  assumes P: "good_process K sm P" and kinds: "K \<longrightarrow> may_register sm c"
    and i: "inv K sm g" and a: "addNodeIsNew c ty g = (src, isNew, g1)"
    and k: "K \<longrightarrow> (\<forall>x \<in> set calls. may_register sm x)"
    and loop: "linkEach P src EChild calls g1 = Returns g'"
  shows "inv K sm g' \<and> extends g g' \<and> nodeToInfo g' c = Some src"
proof -
  have i1: "inv K sm g1" using i a kinds by (rule addNodeIsNew_inv)
  have "registry_ok g" using i by (simp add: inv_def)
  then have e1: "extends g g1" using a by (rule addNodeIsNew_extends)
  have r1: "nodeToInfo g1 c = Some src" using a by (rule addNodeIsNew_registered)
  have t: "EChild = EArgument \<longrightarrow> nodeTypeOf g1 src = Some NCall" by simp
  have 2: "inv K sm g' \<and> extends g1 g'"
    using P i1 t k loop by (rule linkEach_good)
  have e2: "extends g g'" using e1 2 [THEN conjunct2] by (rule extends_trans)
  have r2: "nodeToInfo g' c = Some src" using 2 [THEN conjunct2] r1 by (rule extends_registered)
  show ?thesis using 2 e2 r2 by simp
qed

lemma registered_old:
  assumes "addNodeIsNew c ty g = (src, False, g1)"
  shows "g1 = g \<and> nodeToInfo g c = Some src"
  using assms by (auto simp: addNodeIsNew_def Let_def split: option.splits)

lemma descendant_calls_may_register:
  "K \<longrightarrow> kinds_ok sm \<Longrightarrow> K \<longrightarrow> (\<forall>x \<in> set (getDescendantCalls sm c). may_register sm x)"
  by (auto simp: kinds_ok_def may_register_def)

lemma processFunctionDeclaration_body_good:
  assumes kk: "K \<longrightarrow> kinds_ok sm" and P: "good_process K sm P" and kinds: "K \<longrightarrow> may_register sm c"
    and i: "inv K sm g" and run: "processFunctionDeclaration_body sm P c g = Returns (r, g')"
  shows "inv K sm g' \<and> extends g g' \<and> nodeToInfo g' c = Some r"
proof -
  obtain src isNew g1 where a: "addNodeIsNew c NFunction g = (src, isNew, g1)"
    using prod_cases3 by blast
  show ?thesis
  proof (cases isNew)
    case False
    then have "addNodeIsNew c NFunction g = (src, False, g1)" using a by simp
    then have "g1 = g \<and> nodeToInfo g c = Some src" by (rule registered_old)
    then show ?thesis using run a i False by (simp add: processFunctionDeclaration_body_def)
  next
    case True
    then have "\<exists>body. getBody sm c = Some body
        \<and> linkEach P src EChild (getDescendantCalls sm body) g1 = Returns g' \<and> r = src"
      using run a
      by (auto simp: processFunctionDeclaration_body_def andThen_Returns_iff split: option.splits)
    then obtain body where loop: "linkEach P src EChild (getDescendantCalls sm body) g1 = Returns g'"
      and res: "r = src" by blast
    show ?thesis unfolding res
      using P kinds i a descendant_calls_may_register [OF kk] loop by (rule registered_loop_good)
  qed
qed

lemma processMethodDeclaration_good:
  assumes kk: "K \<longrightarrow> kinds_ok sm" and P: "good_process K sm (processCallExpression sm n)"
    and kinds: "K \<longrightarrow> may_register sm c"
    and i: "inv K sm g" and run: "processMethodDeclaration sm n c g = Returns (r, g')"
  shows "inv K sm g' \<and> extends g g' \<and> nodeToInfo g' c = Some r"
proof -
  obtain src isNew g1 where a: "addNodeIsNew c NFunction g = (src, isNew, g1)"
    using prod_cases3 by blast
  show ?thesis
  proof (cases isNew)
    case False
    then have "addNodeIsNew c NFunction g = (src, False, g1)" using a by simp
    then have "g1 = g \<and> nodeToInfo g c = Some src" by (rule registered_old)
    then show ?thesis using run a i False by (simp add: processMethodDeclaration_def)
  next
    case True
    then have "\<exists>body. getBody sm c = Some body
        \<and> linkEach (processCallExpression sm n) src EChild (getDescendantCalls sm body) g1 = Returns g'
        \<and> r = src"
      using run a
      by (auto simp: processMethodDeclaration_def andThen_Returns_iff split: option.splits)
    then obtain body where
      loop: "linkEach (processCallExpression sm n) src EChild (getDescendantCalls sm body) g1 = Returns g'"
      and res: "r = src" by blast
    show ?thesis unfolding res
      using P kinds i a descendant_calls_may_register [OF kk] loop by (rule registered_loop_good)
  qed
qed

lemma processArgument_body_good:
  assumes kk: "K \<longrightarrow> kinds_ok sm" and P: "good_process K sm P" and kinds: "K \<longrightarrow> may_register sm c"
    and i: "inv K sm g" and run: "processArgument_body sm P c g = Returns (r, g')"
  shows "inv K sm g' \<and> extends g g' \<and> nodeToInfo g' c = Some r"
proof -
  obtain src isNew g1 where a: "addNodeIsNew c NArgument g = (src, isNew, g1)"
    using prod_cases3 by blast
  show ?thesis
  proof (cases isNew)
    case False
    then have "addNodeIsNew c NArgument g = (src, False, g1)" using a by simp
    then have "g1 = g \<and> nodeToInfo g c = Some src" by (rule registered_old)
    then show ?thesis using run a i False by (simp add: processArgument_body_def)
  next
    case True
    then have "linkEach P src EChild (getDescendantCalls sm c) g1 = Returns g' \<and> r = src"
      using run a by (auto simp: processArgument_body_def andThen_Returns_iff)
    then have loop: "linkEach P src EChild (getDescendantCalls sm c) g1 = Returns g'"
      and res: "r = src" by simp_all
    show ?thesis unfolding res
      using P kinds i a descendant_calls_may_register [OF kk] loop by (rule registered_loop_good)
  qed
qed

lemma referencesLoop_good:
  assumes P: "good_process K sm P" and i: "inv K sm g"
    and run: "referencesLoop sm P src refs g = Returns g'"
  shows "inv K sm g' \<and> extends g g'"
proof -
  let ?Q = "\<lambda>h. inv K sm h \<and> extends g h"
  have "?Q g'"
  proof (rule forEach_invariant [OF run [unfolded referencesLoop_def], where Q = ?Q])
    show "?Q g" using i by simp
  next
    fix x h h'
    assume Qh: "?Q h"
      and b: "(case getParent sm x of
                 None \<Rightarrow> Throws NoParent
               | Some temp \<Rightarrow>
                   (case getParent sm temp of
                      None \<Rightarrow> Throws NoParent
                    | Some call \<Rightarrow>
                        if getKind sm call = CallExpression \<and> getExpression sm call = temp
                        then andThen (P call h)
                               (\<lambda>(callInfo, g''). Returns (snd (addEdge src callInfo ECall g'')))
                        else Returns h)) = Returns h'"
    have "h' = h \<or> (\<exists>call callInfo h1. getKind sm call = CallExpression
              \<and> P call h = Returns (callInfo, h1) \<and> h' = snd (addEdge src callInfo ECall h1))"
      using b by (auto simp: andThen_Returns_iff split: option.splits if_splits)
    then show "?Q h'"
    proof
      assume "h' = h"
      then show ?thesis using Qh by simp
    next
      assume "\<exists>call callInfo h1. getKind sm call = CallExpression
              \<and> P call h = Returns (callInfo, h1) \<and> h' = snd (addEdge src callInfo ECall h1)"
      then obtain call callInfo h1 where kind: "getKind sm call = CallExpression"
        and 1: "P call h = Returns (callInfo, h1)"
        and h': "h' = snd (addEdge src callInfo ECall h1)" by blast
      have reg: "K \<longrightarrow> may_register sm call" using kind by (simp add: may_register_def)
      have h1: "inv K sm h1" "extends h h1"
        using good_processD [OF P _ reg 1] Qh by simp_all
      have gh1: "extends g h1" using Qh [THEN conjunct2] h1(2) by (rule extends_trans)
      have t: "ECall = EArgument \<longrightarrow> nodeTypeOf h1 src = Some NCall" by simp
      have "inv K sm h'" unfolding h' using h1(1) t by (rule addEdge_inv)
      moreover have "extends g h'"
        unfolding h' using gh1 addEdge_extends by (rule extends_trans)
      ultimately show "?Q h'" by simp
    qed
  qed
  then show ?thesis .
qed

lemma definitionsLoop_good:
  assumes D: "good_processOpt K sm D" and i: "inv K sm g"
    and run: "definitionsLoop D src defs g = Returns g'"
  shows "inv K sm g' \<and> extends g g'"
proof -
  let ?Q = "\<lambda>h. inv K sm h \<and> extends g h"
  have "?Q g'"
  proof (rule forEach_invariant [OF run [unfolded definitionsLoop_def], where Q = ?Q])
    show "?Q g" using i by simp
  next
    fix x h h'
    assume Qh: "?Q h"
      and b: "andThen (D x h)
                (\<lambda>(definitionInfo, g'').
                   case definitionInfo of
                     None \<Rightarrow> Throws UndefinedOutgoing
                   | Some d \<Rightarrow> splice d src g'') = Returns h'"
    have "\<exists>d h1. D x h = Returns (Some d, h1) \<and> splice d src h1 = Returns h'"
      using b by (auto simp: andThen_Returns_iff split: option.splits)
    then obtain d h1 where 1: "D x h = Returns (Some d, h1)"
      and 2: "splice d src h1 = Returns h'" by blast
    have h1: "inv K sm h1" "extends h h1"
      using good_processOptD(1,2) [OF D _ 1] Qh by simp_all
    have gh1: "extends g h1" using Qh [THEN conjunct2] h1(2) by (rule extends_trans)
    show "?Q h'"
    proof (rule splice_invariant [OF 2, where Q = ?Q])
      show "?Q h1" using h1(1) gh1 by simp
    next
      fix y k assume Qk: "?Q k"
      have t: "EChild = EArgument \<longrightarrow> nodeTypeOf k src = Some NCall" by simp
      have "inv K sm (snd (addEdge src y EChild k))"
        using Qk [THEN conjunct1] t by (rule addEdge_inv)
      moreover have "extends g (snd (addEdge src y EChild k))"
        using Qk [THEN conjunct2] addEdge_extends by (rule extends_trans)
      ultimately show "?Q (snd (addEdge src y EChild k))" by simp
    qed
  qed
  then show ?thesis .
qed

lemma processVariableDeclaration_body_good:
  assumes kk: "K \<longrightarrow> kinds_ok sm" and P: "good_process K sm P" and pre: "K \<longrightarrow> b \<or> may_register sm c"
    and i: "inv K sm g" and run: "processVariableDeclaration_body sm P c b g = Returns (r, g')"
  shows "inv K sm g' \<and> extends g g' \<and> (\<forall>k. r = Some k \<longrightarrow> nodeToInfo g' c = Some k)"
proof (cases "b \<and> \<not> isExported sm c")
  case True
  then show ?thesis using run i by (simp add: processVariableDeclaration_body_def)
next
  case False
  then have kinds: "K \<longrightarrow> may_register sm c"
    using pre by (auto simp: may_register_def)
  from False run obtain init where init: "getInitializer sm c = Some init"
    by (auto simp: processVariableDeclaration_body_def split: option.splits)
  let ?functionLike = "getKind sm init = ArrowFunction \<or> getKind sm init = FunctionExpression"
  let ?ty = "if ?functionLike then NFunction else NObject"
  obtain src isNew g1 where a: "addNodeIsNew c ?ty g = (src, isNew, g1)"
    using prod_cases3 by blast
  have run': "(if \<not> isNew then Returns (Some src, g1)
               else if ?functionLike then
                 (case getBody sm init of
                    None \<Rightarrow> Throws NoBody
                  | Some body \<Rightarrow>
                      andThen (linkEach P src EChild (getDescendantCalls sm body) g1)
                        (\<lambda>g2. Returns (Some src, g2)))
               else
                 andThen (referencesLoop sm P src (concat (findReferences sm c)) g1)
                   (\<lambda>g2. Returns (Some src, g2))) = Returns (r, g')"
    using run False init a
    by (simp add: processVariableDeclaration_body_def Let_def split del: if_split)
  show ?thesis
  proof (cases isNew)
    case False
    then have "addNodeIsNew c ?ty g = (src, False, g1)" using a by simp
    then have "g1 = g \<and> nodeToInfo g c = Some src" by (rule registered_old)
    then show ?thesis using run' i False by simp
  next
    case True
    have i1: "inv K sm g1" using i a kinds by (rule addNodeIsNew_inv)
    have "registry_ok g" using i by (simp add: inv_def)
    then have e1: "extends g g1" using a by (rule addNodeIsNew_extends)
    have r1: "nodeToInfo g1 c = Some src" using a by (rule addNodeIsNew_registered)
    show ?thesis
    proof (cases ?functionLike)
      case fl: True
      then have "\<exists>body. linkEach P src EChild (getDescendantCalls sm body) g1 = Returns g' \<and> r = Some src"
        using run' True by (auto simp: andThen_Returns_iff split: option.splits)
      then obtain body where loop: "linkEach P src EChild (getDescendantCalls sm body) g1 = Returns g'"
        and res: "r = Some src" by blast
      have "inv K sm g' \<and> extends g g' \<and> nodeToInfo g' c = Some src"
        using P kinds i a descendant_calls_may_register [OF kk] loop by (rule registered_loop_good)
      then show ?thesis using res by simp
    next
      case nfl: False
      then have "referencesLoop sm P src (concat (findReferences sm c)) g1 = Returns g' \<and> r = Some src"
        using run' True by (auto simp: andThen_Returns_iff)
      then have loop: "referencesLoop sm P src (concat (findReferences sm c)) g1 = Returns g'"
        and res: "r = Some src" by simp_all
      have 2: "inv K sm g' \<and> extends g1 g'" using P i1 loop by (rule referencesLoop_good)
      have e2: "extends g g'" using e1 2 [THEN conjunct2] by (rule extends_trans)
      have r2: "nodeToInfo g' c = Some src" using 2 [THEN conjunct2] r1 by (rule extends_registered)
      show ?thesis using 2 e2 r2 res by simp
    qed
  qed
qed

lemma processCallExpression_body_good:
  assumes kk: "K \<longrightarrow> kinds_ok sm" and D: "good_processOpt K sm D" and A: "good_process K sm A"
    and kinds: "K \<longrightarrow> may_register sm c"
    and i: "inv K sm g" and run: "processCallExpression_body sm D A c g = Returns (r, g')"
  shows "inv K sm g' \<and> extends g g' \<and> nodeToInfo g' c = Some r"
proof -
  obtain src isNew g1 where a: "addNodeIsNew c NCall g = (src, isNew, g1)"
    using prod_cases3 by blast
  show ?thesis
  proof (cases isNew)
    case False
    then have "addNodeIsNew c NCall g = (src, False, g1)" using a by simp
    then have "g1 = g \<and> nodeToInfo g c = Some src" by (rule registered_old)
    then show ?thesis using run a i False by (simp add: processCallExpression_body_def)
  next
    case True
    have i1: "inv K sm g1" using i a kinds by (rule addNodeIsNew_inv)
    have "registry_ok g" using i by (simp add: inv_def)
    then have e1: "extends g g1" using a by (rule addNodeIsNew_extends)
    have r1: "nodeToInfo g1 c = Some src" using a by (rule addNodeIsNew_registered)
    have "addNodeIsNew c NCall g = (src, True, g1)" using a True by simp
    from addNodeIsNew_type [OF this] have t1: "nodeTypeOf g1 src = Some NCall" by simp
    have "\<exists>g2. (if getKind sm (getExpression sm c) = Identifier
               then definitionsLoop D src (getDefinitionNodes sm (getExpression sm c)) g1
               else Returns g1) = Returns g2
            \<and> linkEach A src EArgument (getArguments sm c) g2 = Returns g' \<and> r = src"
      using run a True by (auto simp: processCallExpression_body_def andThen_Returns_iff)
    then obtain g2 where
      defs: "(if getKind sm (getExpression sm c) = Identifier
               then definitionsLoop D src (getDefinitionNodes sm (getExpression sm c)) g1
               else Returns g1) = Returns g2"
      and args: "linkEach A src EArgument (getArguments sm c) g2 = Returns g'"
      and res: "r = src" by blast
    have 2: "inv K sm g2 \<and> extends g1 g2"
    proof (cases "getKind sm (getExpression sm c) = Identifier")
      case True
      then have "definitionsLoop D src (getDefinitionNodes sm (getExpression sm c)) g1 = Returns g2"
        using defs by simp
      with D i1 show ?thesis by (rule definitionsLoop_good)
    next
      case False
      then show ?thesis using defs i1 by simp
    qed
    have t2: "EArgument = EArgument \<longrightarrow> nodeTypeOf g2 src = Some NCall"
      using 2 t1 extends_nodeTypeOf by blast
    have k: "K \<longrightarrow> (\<forall>x \<in> set (getArguments sm c). may_register sm x)"
      using kk by (auto simp: kinds_ok_def may_register_def)
    have 3: "inv K sm g' \<and> extends g2 g'"
      using A 2 [THEN conjunct1] t2 k args by (rule linkEach_good)
    have e12: "extends g g2" using e1 2 [THEN conjunct2] by (rule extends_trans)
    have e3: "extends g g'" using e12 3 [THEN conjunct2] by (rule extends_trans)
    have r2: "nodeToInfo g2 c = Some src" using 2 [THEN conjunct2] r1 by (rule extends_registered)
    have r3: "nodeToInfo g' c = Some src" using 3 [THEN conjunct2] r2 by (rule extends_registered)
    show ?thesis using 3 e3 r3 res by simp
  qed
qed

lemma processDefinition_body_good:
  assumes V: "good_processVar K sm V" and F: "good_process K sm F"
    and i: "inv K sm g" and run: "processDefinition_body sm V F c g = Returns (r, g')"
  shows "inv K sm g' \<and> extends g g' \<and> (\<forall>k. r = Some k \<longrightarrow> nodeToInfo g' c = Some k)"
proof (cases "getKind sm c = VariableDeclaration")
  case True
  then have 1: "V c True g = Returns (r, g')" using run by (simp add: processDefinition_body_def)
  have pre: "K \<longrightarrow> True \<or> may_register sm c" by simp
  show ?thesis using good_processVarD [OF V i pre 1] by simp
next
  case nv: False
  then have kinds: "K \<longrightarrow> may_register sm c" by (simp add: may_register_def)
  show ?thesis
  proof (cases "getKind sm c = FunctionDeclaration")
    case True
    then have "\<exists>src. F c g = Returns (src, g') \<and> r = Some src"
      using run nv by (auto simp: processDefinition_body_def andThen_Returns_iff)
    then obtain src where 1: "F c g = Returns (src, g')" and res: "r = Some src" by blast
    show ?thesis using good_processD [OF F i kinds 1] res by simp
  next
    case False
    obtain src isNew g1 where a: "addNodeIsNew c NAny g = (src, isNew, g1)"
      using prod_cases3 by blast
    then have res: "r = Some src" "g' = g1"
      using run nv False by (simp_all add: processDefinition_body_def addNode_def)
    have i1: "inv K sm g1" using i a kinds by (rule addNodeIsNew_inv)
    have "registry_ok g" using i by (simp add: inv_def)
    then have e1: "extends g g1" using a by (rule addNodeIsNew_extends)
    have r1: "nodeToInfo g1 c = Some src" using a by (rule addNodeIsNew_registered)
    show ?thesis using i1 e1 r1 res by simp
  qed
qed

lemma process_good:
  assumes kk: "K \<longrightarrow> kinds_ok sm"
  shows "good_processVar K sm (processVariableDeclaration sm n)
   \<and> good_process K sm (processCallExpression sm n)
   \<and> good_processOpt K sm (processDefinition sm n)
   \<and> good_process K sm (processFunctionDeclaration sm n)
   \<and> good_process K sm (processArgument sm n)"
proof (induction n)
  case 0
  show ?case by (simp add: good_processVar_def good_process_def good_processOpt_def)
next
  case (Suc n)
  then have V: "good_processVar K sm (processVariableDeclaration sm n)"
    and C: "good_process K sm (processCallExpression sm n)"
    and D: "good_processOpt K sm (processDefinition sm n)"
    and F: "good_process K sm (processFunctionDeclaration sm n)"
    and A: "good_process K sm (processArgument sm n)" by simp_all
  have "good_processVar K sm (processVariableDeclaration sm (Suc n))"
    unfolding good_processVar_def using processVariableDeclaration_body_good [OF kk C] by simp
  moreover have "good_process K sm (processCallExpression sm (Suc n))"
    unfolding good_process_def using processCallExpression_body_good [OF kk D A] by simp
  moreover have "good_processOpt K sm (processDefinition sm (Suc n))"
    unfolding good_processOpt_def using processDefinition_body_good [OF V F] by simp
  moreover have "good_process K sm (processFunctionDeclaration sm (Suc n))"
    unfolding good_process_def using processFunctionDeclaration_body_good [OF kk C] by simp
  moreover have "good_process K sm (processArgument sm (Suc n))"
    unfolding good_process_def using processArgument_body_good [OF kk C] by simp
  ultimately show ?case by blast
qed


subsection \<open>The entry points\<close>

lemma inv_newGraph: "inv K sm newGraph"
  by (simp add: inv_def registry_ok_def argument_ok_def exported_ok_def newGraph_def Map_get_def)

lemma forEach_good:
  assumes step: "\<And>x h h'. x \<in> set xs \<Longrightarrow> inv K sm h \<Longrightarrow> body x h = Returns h'
                   \<Longrightarrow> inv K sm h' \<and> extends h h'"
    and i: "inv K sm g" and run: "forEach body xs g = Returns g'"
  shows "inv K sm g' \<and> extends g g'"
proof (rule forEach_invariant [OF run, where Q = "\<lambda>h. inv K sm h \<and> extends g h"])
  show "inv K sm g \<and> extends g g" using i by simp
next
  fix x h h'
  assume x: "x \<in> set xs" and Q: "inv K sm h \<and> extends g h" and b: "body x h = Returns h'"
  have 1: "inv K sm h' \<and> extends h h'" using x Q [THEN conjunct1] b by (rule step)
  have "extends g h'" using Q [THEN conjunct2] 1 [THEN conjunct2] by (rule extends_trans)
  then show "inv K sm h' \<and> extends g h'" using 1 by simp
qed

lemma processClass_good:
  assumes kk: "K \<longrightarrow> kinds_ok sm" and i: "inv K sm g"
    and run: "processClass sm n cls g = Returns g'"
  shows "inv K sm g' \<and> extends g g'"
proof (rule forEach_good [OF _ i run [unfolded processClass_def]])
  fix x h h'
  assume x: "x \<in> set (getMethods sm cls)" and ih: "inv K sm h"
    and b: "andThen (processMethodDeclaration sm n x h) (\<lambda>(info, g''). Returns g'') = Returns h'"
  have "\<exists>info. processMethodDeclaration sm n x h = Returns (info, h')"
    using b by (auto simp: andThen_Returns_iff)
  then obtain info where 1: "processMethodDeclaration sm n x h = Returns (info, h')" by blast
  have reg: "K \<longrightarrow> may_register sm x" using kk x by (auto simp: kinds_ok_def may_register_def)
  have C: "good_process K sm (processCallExpression sm n)" using process_good [OF kk] by blast
  show "inv K sm h' \<and> extends h h'"
    using processMethodDeclaration_good [OF kk C reg ih 1] by simp
qed

lemma processClasses_good:
  assumes kk: "K \<longrightarrow> kinds_ok sm" and i: "inv K sm g"
    and run: "processClasses sm n sourceFile g = Returns g'"
  shows "inv K sm g' \<and> extends g g'"
proof (rule forEach_good [OF _ i run [unfolded processClasses_def]])
  fix x h h'
  assume "inv K sm h" and "processClass sm n x h = Returns h'"
  with kk show "inv K sm h' \<and> extends h h'" by (rule processClass_good)
qed

lemma processFunctions_good:
  assumes kk: "K \<longrightarrow> kinds_ok sm" and i: "inv K sm g"
    and run: "processFunctions sm n sourceFile g = Returns g'"
  shows "inv K sm g' \<and> extends g g'"
proof (rule forEach_good [OF _ i run [unfolded processFunctions_def]])
  fix x h h'
  assume x: "x \<in> set (getFunctions sm sourceFile)" and ih: "inv K sm h"
    and b: "andThen (processFunctionDeclaration sm n x h) (\<lambda>(info, g''). Returns g'') = Returns h'"
  have "\<exists>info. processFunctionDeclaration sm n x h = Returns (info, h')"
    using b by (auto simp: andThen_Returns_iff)
  then obtain info where 1: "processFunctionDeclaration sm n x h = Returns (info, h')" by blast
  have reg: "K \<longrightarrow> may_register sm x" using kk x by (auto simp: kinds_ok_def may_register_def)
  have F: "good_process K sm (processFunctionDeclaration sm n)" using process_good [OF kk] by blast
  show "inv K sm h' \<and> extends h h'"
    using good_processD [OF F ih reg 1] by simp
qed

lemma processVariables_good:
  assumes kk: "K \<longrightarrow> kinds_ok sm" and i: "inv K sm g"
    and run: "processVariables sm n sourceFile g = Returns g'"
  shows "inv K sm g' \<and> extends g g'"
proof (rule forEach_good [OF _ i run [unfolded processVariables_def]])
  fix v h h'
  assume ih: "inv K sm h"
    and b: "(case getVariableStatement sm v of
               None \<Rightarrow> Throws NoVariableStatement
             | Some statement \<Rightarrow>
                 forEach (\<lambda>declaration g''.
                            andThen (processVariableDeclaration sm n declaration True g'')
                              (\<lambda>(info, g3). Returns g3))
                         (getDeclarations sm statement) h) = Returns h'"
  have "\<exists>statement. forEach (\<lambda>declaration g''.
                            andThen (processVariableDeclaration sm n declaration True g'')
                              (\<lambda>(info, g3). Returns g3))
                         (getDeclarations sm statement) h = Returns h'"
    using b by (auto split: option.splits)
  then obtain statement where inner:
    "forEach (\<lambda>declaration g''.
                andThen (processVariableDeclaration sm n declaration True g'')
                  (\<lambda>(info, g3). Returns g3))
             (getDeclarations sm statement) h = Returns h'" by blast
  show "inv K sm h' \<and> extends h h'"
  proof (rule forEach_good [OF _ ih inner])
    fix d k k'
    assume ik: "inv K sm k"
      and b': "andThen (processVariableDeclaration sm n d True k) (\<lambda>(info, g3). Returns g3) = Returns k'"
    have "\<exists>info. processVariableDeclaration sm n d True k = Returns (info, k')"
      using b' by (auto simp: andThen_Returns_iff)
    then obtain info where 1: "processVariableDeclaration sm n d True k = Returns (info, k')" by blast
    have V: "good_processVar K sm (processVariableDeclaration sm n)" using process_good [OF kk] by blast
    have pre: "K \<longrightarrow> True \<or> may_register sm d" by simp
    show "inv K sm k' \<and> extends k k'"
      using good_processVarD(1,2) [OF V ik pre 1] by simp
  qed
qed

lemma initialize_good:
  assumes kk: "K \<longrightarrow> kinds_ok sm" and i: "inv K sm g"
    and run: "initialize sm n g = Returns g'"
  shows "inv K sm g' \<and> extends g g'"
proof (rule forEach_good [OF _ i run [unfolded initialize_def]])
  fix f h h'
  assume ih: "inv K sm h"
    and b: "andThen (processVariables sm n f h)
              (\<lambda>g1. andThen (processFunctions sm n f g1) (\<lambda>g2. processClasses sm n f g2)) = Returns h'"
  have "\<exists>h1 h2. processVariables sm n f h = Returns h1 \<and> processFunctions sm n f h1 = Returns h2
          \<and> processClasses sm n f h2 = Returns h'"
    using b by (auto simp: andThen_Returns_iff)
  then obtain h1 h2 where 1: "processVariables sm n f h = Returns h1"
    and 2: "processFunctions sm n f h1 = Returns h2"
    and 3: "processClasses sm n f h2 = Returns h'" by blast
  have a: "inv K sm h1 \<and> extends h h1" using kk ih 1 by (rule processVariables_good)
  have b: "inv K sm h2 \<and> extends h1 h2" using kk a [THEN conjunct1] 2 by (rule processFunctions_good)
  have c: "inv K sm h' \<and> extends h2 h'" using kk b [THEN conjunct1] 3 by (rule processClasses_good)
  have "extends h h2" using a [THEN conjunct2] b [THEN conjunct2] by (rule extends_trans)
  then have "extends h h'" using c [THEN conjunct2] by (rule extends_trans)
  then show "inv K sm h' \<and> extends h h'" using c by simp
qed

subsection \<open>Serializer\<close>

lemma outgoingFilter_ok:
  assumes "\<forall>e \<in> set es. edgeType e = EArgument \<longrightarrow> ty = NCall"
  shows "outgoingFilter ty es = Returns (filter (\<lambda>e. edgeType e \<noteq> EArgument) es)"
  using assms by (induction es) auto

lemma nodeToJSON_no_integrity_error:
  assumes "\<forall>e \<in> set (outgoing nd). edgeType e = EArgument \<longrightarrow> nodeType nd = NCall"
  shows "nodeToJSON sm nd \<noteq> Throws ArgumentEdgeOnNonCall"
proof -
  have d: "nodeDataOf sm nd \<noteq> Throws ArgumentEdgeOnNonCall"
    by (auto simp: nodeDataOf_def split: option.splits)
  show ?thesis
    using d outgoingFilter_ok [OF assms]
    by (cases "nodeDataOf sm nd") (auto simp: nodeToJSON_def)
qed

lemma nodesToJSON_loop_no_integrity_error:
  assumes "\<forall>(k, nd) \<in> set ns. \<forall>e \<in> set (outgoing nd). edgeType e = EArgument \<longrightarrow> nodeType nd = NCall"
  shows "nodesToJSON_loop sm ns \<noteq> Throws ArgumentEdgeOnNonCall"
  using assms
proof (induction ns)
  case Nil
  then show ?case by simp
next
  case (Cons p ns)
  obtain k nd where p: "p = (k, nd)" by (cases p)
  have 1: "nodeToJSON sm nd \<noteq> Throws ArgumentEdgeOnNonCall"
    using Cons.prems p by (intro nodeToJSON_no_integrity_error) auto
  have 2: "nodesToJSON_loop sm ns \<noteq> Throws ArgumentEdgeOnNonCall"
    using Cons by auto
  show ?case
    using 1 2 unfolding p
    by (cases "nodeToJSON sm nd"; cases "nodesToJSON_loop sm ns") auto
qed

lemma inv_nodes_argument:
  assumes "inv K sm g" and "(k, nd) \<in> set (nodes g)" and "e \<in> set (outgoing nd)"
    and "edgeType e = EArgument"
  shows "nodeType nd = NCall"
proof -
  have "distinct (map fst (nodes g))" using assms(1) by (simp add: inv_def registry_ok_def)
  then have "Map_get (nodes g) k = Some nd" using assms(2) by (simp add: Map_get_def)
  then show ?thesis using assms(1,3,4) unfolding inv_def argument_ok_def by blast
qed

lemma inv_edges_argument:
  assumes "inv K sm g" and "(i, e) \<in> set (edges g)" and "edgeType e = EArgument"
  shows "nodeTypeOf g (source e) = Some NCall"
proof -
  have "distinct (map fst (edges g))" using assms(1) by (simp add: inv_def argument_ok_def)
  then have "Map_get (edges g) i = Some e" using assms(2) by (simp add: Map_get_def)
  then show ?thesis using assms(1,3) unfolding inv_def argument_ok_def by blast
qed

subsection \<open>Reading a store and a result\<close>

text \<open>
  \<open>store_ok\<close> is the part of the invariant that does not depend on the source model;
  \<open>resultNode\<close> and \<open>resultGraph\<close> read the two components of what a method returned,
  and \<open>shape\<close> reads an edge without its id.
\<close>

definition store_ok :: "'c CodeFlowGraph \<Rightarrow> bool" where
  "store_ok g \<longleftrightarrow> registry_ok g \<and> argument_ok g"

lemma inv_False: "inv False sm g \<longleftrightarrow> store_ok g"
  by (simp add: inv_def store_ok_def)

definition resultNode :: "('a \<times> 'c CodeFlowGraph) result \<Rightarrow> 'a option" where
  "resultNode r = (case r of Returns (k, g) \<Rightarrow> Some k | _ \<Rightarrow> None)"

definition resultGraph :: "('a \<times> 'c CodeFlowGraph) result \<Rightarrow> 'c CodeFlowGraph" where
  "resultGraph r = (case r of Returns (k, g) \<Rightarrow> g | _ \<Rightarrow> newGraph)"

lemma result_eq: "resultNode r = Some k \<Longrightarrow> r = Returns (k, resultGraph r)"
  by (auto simp: resultNode_def resultGraph_def split: result.splits)

definition shape :: "EdgeInfo \<Rightarrow> nat \<times> nat \<times> EdgeType" where
  "shape e = (source e, destination e, edgeType e)"

section \<open>Argument edges\<close>

text \<open>
  Claim C4 (argument-edge type invariant). In every graph that \<^verbatim>\<open>initialize\<close> returns on
  a new \<^verbatim>\<open>CodeFlowGraph\<close>, whatever the source model and the depth allowed, every edge
  of the edge store whose type is \<^verbatim>\<open>Argument\<close> starts at a node of type \<^verbatim>\<open>Call\<close>, and
  \<^verbatim>\<open>nodesToJSON\<close> does not throw its integrity error on that graph.
\<close>

theorem argument_edges_start_at_calls:
  assumes "initialize sm n newGraph = Returns g"
  shows "(\<forall>e \<in> snd ` set (edges g). edgeType e = EArgument \<longrightarrow> nodeTypeOf g (source e) = Some NCall)
         \<and> nodesToJSON sm g \<noteq> Throws ArgumentEdgeOnNonCall"
proof -
  have i: "inv False sm g"
    using initialize_good [OF _ inv_newGraph assms, of False] by simp
  have 1: "\<forall>e \<in> snd ` set (edges g). edgeType e = EArgument \<longrightarrow> nodeTypeOf g (source e) = Some NCall"
    using inv_edges_argument [OF i] by auto
  have "\<forall>(k, nd) \<in> set (nodes g). \<forall>e \<in> set (outgoing nd). edgeType e = EArgument \<longrightarrow> nodeType nd = NCall"
    using inv_nodes_argument [OF i] by blast
  then have 2: "nodesToJSON sm g \<noteq> Throws ArgumentEdgeOnNonCall"
    unfolding nodesToJSON_def by (rule nodesToJSON_loop_no_integrity_error)
  show ?thesis using 1 2 by simp
qed

theorem argument_edges_start_at_calls_witness:
  "initialize fixtureModel 5 newGraph = Returns fixtureGraph
   \<and> \<lparr>source = 6, destination = 8, edgeId = 3, edgeType = EArgument\<rparr> \<in> snd ` set (edges fixtureGraph)
   \<and> nodeTypeOf fixtureGraph 6 = Some NCall
   \<and> nodesToJSON fixtureModel fixtureGraph \<noteq> Throws ArgumentEdgeOnNonCall"
proof -
  have m: "\<lparr>source = 6, destination = 8, edgeId = 3, edgeType = EArgument\<rparr> \<in> snd ` set (edges fixtureGraph)"
    by (simp add: fixture_edges)
  show ?thesis
    using argument_edges_start_at_calls [OF fixture_build_returns] m fixture_build_returns
    by fastforce
qed

section \<open>Exported-only pruning\<close>

text \<open>
  The kinds that \<^verbatim>\<open>ts-morph\<close> guarantees by the types of its methods: the result of
  \<^verbatim>\<open>getDescendantsOfKind(SyntaxKind.CallExpression)\<close> holds call expressions, an argument
  of a call is an expression and so no variable declaration, \<^verbatim>\<open>getFunctions()\<close> gives
  function declarations and \<^verbatim>\<open>getMethods()\<close> method declarations. This is the predicate
  \<open>kinds_ok\<close>.
\<close>

lemma kinds_ok_second: "kinds_ok secondModel"
  by (auto simp: kinds_ok_def secondModel_def split: if_splits)

text \<open>
  Claim C8 (exported-only pruning). For a variable declaration \<open>d\<close> that is not exported:
  \<^verbatim>\<open>processVariableDeclaration(d)\<close> with \<^verbatim>\<open>export_only = true\<close> returns \<^verbatim>\<open>undefined\<close> and
  leaves the graph as it was, whatever the initializer of \<open>d\<close> is and even if it has
  none; and in a graph that \<^verbatim>\<open>initialize\<close> returns, \<open>d\<close> is not in the node registry and
  no node of the store stands for \<open>d\<close>. The second part needs no assumption on how \<open>d\<close> is
  referenced; it holds for every source model whose kinds are as above.
\<close>

theorem non_exported_variable_gets_no_node:
  assumes ne: "\<not> isExported sm d" and kind: "getKind sm d = VariableDeclaration"
    and kinds: "kinds_ok sm" and run: "initialize sm n newGraph = Returns g"
  shows "processVariableDeclaration sm (Suc m) d True h = Returns (None, h)
         \<and> nodeToInfo g d = None
         \<and> d \<notin> (\<lambda>(k, nd). node nd) ` set (nodes g)"
proof -
  have 1: "processVariableDeclaration sm (Suc m) d True h = Returns (None, h)"
    using ne by (simp add: processVariableDeclaration_body_def)
  have kk: "True \<longrightarrow> kinds_ok sm" using kinds by simp
  have i: "inv True sm g"
    using initialize_good [OF kk inv_newGraph run] by simp
  have 2: "nodeToInfo g d = None"
  proof (cases "nodeToInfo g d")
    case None
    then show ?thesis .
  next
    case (Some k)
    then have "isExported sm d" using i kind unfolding inv_def exported_ok_def by blast
    then show ?thesis using ne by simp
  qed
  have 3: "d \<notin> (\<lambda>(k, nd). node nd) ` set (nodes g)"
  proof
    assume "d \<in> (\<lambda>(k, nd). node nd) ` set (nodes g)"
    then obtain k nd where m: "(k, nd) \<in> set (nodes g)" and nd: "node nd = d" by auto
    have "distinct (map fst (nodes g))" using i by (simp add: inv_def registry_ok_def)
    then have "Map_get (nodes g) k = Some nd" using m by (simp add: Map_get_def)
    then have "nodeToInfo g (node nd) = Some k" using i unfolding inv_def registry_ok_def by blast
    then show False using 2 nd by simp
  qed
  show ?thesis using 1 2 3 by simp
qed

theorem non_exported_variable_gets_no_node_witness:
  "\<not> isExported secondModel VarHelper \<and> getKind secondModel VarHelper = VariableDeclaration
   \<and> kinds_ok secondModel \<and> initialize secondModel 5 newGraph = Returns secondGraph
   \<and> processVariableDeclaration secondModel (Suc 0) VarHelper True newGraph = Returns (None, newGraph)
   \<and> nodeToInfo secondGraph VarHelper = None
   \<and> VarHelper \<notin> (\<lambda>(k, nd). node nd) ` set (nodes secondGraph)"
proof -
  have a: "\<not> isExported secondModel VarHelper" by (simp add: secondModel_def)
  have b: "getKind secondModel VarHelper = VariableDeclaration" by (simp add: secondModel_def)
  show ?thesis
    using non_exported_variable_gets_no_node [OF a b kinds_ok_second second_build_returns, of 0 newGraph]
      a b kinds_ok_second second_build_returns
    by simp
qed

section \<open>A definition that is not exported\<close>

text \<open>
  Claim C10 (indirect resolution of a non-exported variable aborts). Let a call expression
  that has no node yet have a bare identifier as callee, and let the first declaration
  the identifier resolves to be a variable declaration \<open>d\<close> that is not exported. Then
  \<^verbatim>\<open>processDefinition(d)\<close>, which calls \<^verbatim>\<open>processVariableDeclaration(d)\<close> with the default
  \<^verbatim>\<open>export_only = true\<close>, returns \<^verbatim>\<open>undefined\<close> and leaves the graph as it was, and
  \<^verbatim>\<open>processCallExpression\<close> throws the \<^verbatim>\<open>TypeError\<close> of reading \<^verbatim>\<open>.outgoing\<close> of
  \<^verbatim>\<open>undefined\<close>. The witness is the file of the second input without the \<^verbatim>\<open>export\<close> of
  \<open>log\<close>, on which the whole build ends with that error.
\<close>

theorem unexported_definition_aborts_call:
  assumes new: "nodeToInfo g call = None"
    and ident: "getKind sm (getExpression sm call) = Identifier"
    and defs: "getDefinitionNodes sm (getExpression sm call) = d # ds"
    and var: "getKind sm d = VariableDeclaration" and ne: "\<not> isExported sm d"
  shows "processDefinition sm (Suc (Suc n)) d h = Returns (None, h)
         \<and> processCallExpression sm (Suc (Suc (Suc n))) call g = Throws UndefinedOutgoing"
proof -
  have 1: "processDefinition sm (Suc (Suc n)) d h = Returns (None, h)" for h
    using var ne by (simp add: processDefinition_body_def processVariableDeclaration_body_def)
  have 2: "processCallExpression sm (Suc (Suc (Suc n))) call g = Throws UndefinedOutgoing"
    using new ident defs 1
    by (simp add: processCallExpression_body_def addNodeIsNew_new definitionsLoop_def
          del: processDefinition.simps)
  show ?thesis using 1 2 by simp
qed

theorem unexported_definition_aborts_call_witness:
  "nodeToInfo (newGraph :: second CodeFlowGraph) CallLogMain = None
   \<and> getKind abortModel (getExpression abortModel CallLogMain) = Identifier
   \<and> getDefinitionNodes abortModel (getExpression abortModel CallLogMain) = [VarLog, SigLog]
   \<and> getKind abortModel VarLog = VariableDeclaration
   \<and> \<not> isExported abortModel VarLog
   \<and> processDefinition abortModel 2 VarLog newGraph = Returns (None, newGraph)
   \<and> processCallExpression abortModel 3 CallLogMain newGraph = Throws UndefinedOutgoing
   \<and> initialize abortModel 5 newGraph = Throws UndefinedOutgoing"
proof -
  have a: "nodeToInfo (newGraph :: second CodeFlowGraph) CallLogMain = None"
    by (simp add: newGraph_def)
  have b: "getKind abortModel (getExpression abortModel CallLogMain) = Identifier"
    by (simp add: abortModel_def secondModel_def)
  have c: "getDefinitionNodes abortModel (getExpression abortModel CallLogMain) = [VarLog, SigLog]"
    by (simp add: abortModel_def secondModel_def)
  have d: "getKind abortModel VarLog = VariableDeclaration"
    by (simp add: abortModel_def secondModel_def)
  have e: "\<not> isExported abortModel VarLog"
    by (simp add: abortModel_def secondModel_def)
  have "processDefinition abortModel 2 VarLog newGraph = Returns (None, newGraph)
        \<and> processCallExpression abortModel 3 CallLogMain newGraph = Throws UndefinedOutgoing"
    using unexported_definition_aborts_call [OF a b c d e, of 0 newGraph]
    by (simp only: numeral_2_eq_2 numeral_3_eq_3)
  then show ?thesis
    using a b c d e abort_build_throws by blast
qed

section \<open>Flattening\<close>


lemma addEdge_outgoingOf_src:
  assumes "edgeInfo g (src, x) = None" and "nodeTypeOf g src = Some t"
  shows "outgoingOf (snd (addEdge src x ty g)) src =
           outgoingOf g src @ [\<lparr> source = src, destination = x, edgeId = NEXT_EDGE_ID g, edgeType = ty \<rparr>]"
proof -
  obtain nd where nd: "Map_get (nodes g) src = Some nd"
    using assms(2) by (auto simp: nodeTypeOf_def)
  show ?thesis
    using assms(1) nd
    by (auto simp: addEdge_def addEdgeIsNew_def Let_def outgoingOf_def addIncoming_nodes
          addOutgoing_nodes)
qed













section \<open>The two scenarios of the test input\<close>

text \<open>
  Scenario A as the specification expects it: a \<^verbatim>\<open>Function\<close> node for \<open>bar\<close>, a \<^verbatim>\<open>Call\<close>
  node for each of the two calls, both linked from \<open>bar\<close> by a \<^verbatim>\<open>Child\<close> edge, and an
  \<^verbatim>\<open>Argument\<close> node linked from the outer call by an \<^verbatim>\<open>Argument\<close> edge and to the inner
  call by a \<^verbatim>\<open>Child\<close> edge.
\<close>

definition hasEdge :: "'c CodeFlowGraph \<Rightarrow> nat \<Rightarrow> nat \<Rightarrow> EdgeType \<Rightarrow> bool" where
  "hasEdge g s d ty \<longleftrightarrow> (s, d, ty) \<in> set (map (\<lambda>(i, e). shape e) (edges g))"

definition scenarioA_expected :: "fixture CodeFlowGraph \<Rightarrow> bool" where
  "scenarioA_expected g \<longleftrightarrow>
     (\<exists>bar outer inner arg.
        nodeToInfo g MethodBar = Some bar \<and> nodeTypeOf g bar = Some NFunction
        \<and> nodeToInfo g CallOuter = Some outer \<and> nodeTypeOf g outer = Some NCall
        \<and> nodeToInfo g CallInner = Some inner \<and> nodeTypeOf g inner = Some NCall
        \<and> hasEdge g bar outer EChild \<and> hasEdge g bar inner EChild
        \<and> nodeTypeOf g arg = Some NArgument
        \<and> hasEdge g outer arg EArgument \<and> hasEdge g arg inner EChild)"

lemma fixture_nodes:
  "map (\<lambda>(k, n). (k, node n, nodeType n, map shape (outgoing n))) (nodes fixtureGraph) =
     [(0, VarDouble, NFunction, []),
      (1, VarFoo, NObject, [(1, 2, ECall)]),
      (2, CallFooBar, NCall, [(2, 3, EArgument), (2, 4, EArgument)]),
      (3, Arg5, NArgument, []),
      (4, ArgDouble, NArgument, []),
      (5, MethodBar, NFunction, [(5, 6, EChild), (5, 8, EChild)]),
      (6, CallOuter, NCall, [(6, 8, EArgument)]),
      (7, ParamCallback, NAny, []),
      (8, CallInner, NArgument, [])]"
  by code_simp

lemma fixture_registry:
  "map (nodeToInfo fixtureGraph) [VarDouble, VarFoo, CallFooBar, Arg5, ArgDouble, MethodBar, CallOuter, ParamCallback, CallInner]
     = map Some [0, 1, 2, 3, 4, 5, 6, 7, 8]"
  by code_simp

lemma fixture_types:
  "map (nodeTypeOf fixtureGraph) [0, 1, 2, 3, 4, 5, 6, 7, 8]
     = map Some [NFunction, NObject, NCall, NArgument, NArgument, NFunction, NCall, NAny, NArgument]"
  by code_simp

text \<open>
  Claim C2 (scenario A) as stated fails on the test input. The expected shape needs an
  \<^verbatim>\<open>Argument\<close> node with a \<^verbatim>\<open>Child\<close> edge to the node of the inner call, and no \<^verbatim>\<open>Child\<close>
  edge of the graph starts at an \<^verbatim>\<open>Argument\<close> node: the registry holds one node for a
  construct, and the argument of the outer call is the inner call itself. Nor is the
  node registered for the inner call \<open>callback(x)\<close> a \<^verbatim>\<open>Call\<close> node in this build.
\<close>

theorem scenarioA_two_call_nodes_counterexample:
  "nodeToInfo fixtureGraph CallInner = Some 8
   \<and> nodeTypeOf fixtureGraph 8 = Some NArgument
   \<and> filter (\<lambda>(s, d, ty). ty = EChild \<and> nodeTypeOf fixtureGraph s = Some NArgument)
        (map (\<lambda>(i, e). shape e) (edges fixtureGraph)) = []
   \<and> \<not> scenarioA_expected fixtureGraph"
proof -
  have a: "nodeToInfo fixtureGraph CallInner = Some 8" using fixture_registry by simp
  have b: "nodeTypeOf fixtureGraph 8 = Some NArgument" using fixture_types by simp
  have c: "filter (\<lambda>(s, d, ty). ty = EChild \<and> nodeTypeOf fixtureGraph s = Some NArgument)
        (map (\<lambda>(i, e). shape e) (edges fixtureGraph)) = []" by code_simp
  have d: "\<not> scenarioA_expected fixtureGraph"
    unfolding scenarioA_expected_def using a b by auto
  show ?thesis by (intro conjI) (fact a b c d)+
qed

text \<open>
  The type of the node of the inner call is not a matter of the scenario but of the
  order in which the methods reach the expression. In the build, \<^verbatim>\<open>processArgument\<close>
  registers it first, as the argument of the outer call, and the later
  \<^verbatim>\<open>processCallExpression\<close> of the body scan returns at its registry guard: the callee
  and the argument \<open>x\<close> of the inner call are never processed, and \<open>x\<close> has no node.
  Reached first by \<^verbatim>\<open>processCallExpression\<close>, the same expression gets a \<^verbatim>\<open>Call\<close> node,
  and \<open>x\<close> an \<^verbatim>\<open>Argument\<close> node linked from it.
\<close>

definition innerFirst :: "fixture CodeFlowGraph" where
  "innerFirst = resultGraph (processCallExpression fixtureModel 5 CallInner newGraph)"

lemma inner_call_reached_first_is_a_call_node:
  "nodeToInfo fixtureGraph ArgX = None
   \<and> nodeTypeOf fixtureGraph 8 = Some NArgument
   \<and> outgoingOf fixtureGraph 8 = []
   \<and> resultNode (processCallExpression fixtureModel 5 CallInner newGraph) = Some 0
   \<and> map (\<lambda>(k, n). (k, node n, nodeType n, map shape (outgoing n))) (nodes innerFirst)
       = [(0, CallInner, NCall, [(0, 2, EArgument)]),
          (1, ParamCallback, NAny, []),
          (2, ArgX, NArgument, [])]"
proof -
  have 1: "nodeToInfo fixtureGraph ArgX = None" by code_simp
  have 2: "nodeTypeOf fixtureGraph 8 = Some NArgument" by code_simp
  have 3: "outgoingOf fixtureGraph 8 = []" by code_simp
  have 4: "resultNode (processCallExpression fixtureModel 5 CallInner newGraph) = Some 0"
    by code_simp
  have 5: "map (\<lambda>(k, n). (k, node n, nodeType n, map shape (outgoing n))) (nodes innerFirst)
       = [(0, CallInner, NCall, [(0, 2, EArgument)]),
          (1, ParamCallback, NAny, []),
          (2, ArgX, NArgument, [])]" by code_simp
  show ?thesis by (intro conjI) (fact 1 2 3 4 5)+
qed

text \<open>
  Claim C2, amended. In the graph built from the test input, the method \<open>bar\<close>, the outer
  call and the inner call have one node each: node \<open>5\<close>, a \<^verbatim>\<open>Function\<close> node, for \<open>bar\<close>;
  node \<open>6\<close>, a \<^verbatim>\<open>Call\<close> node, for the outer call; node \<open>8\<close> for the inner call, and no
  other node stands for one of them. Both call nodes are linked from \<open>bar\<close> by a \<^verbatim>\<open>Child\<close>
  edge, and these are the outgoing edges of \<open>bar\<close>. The only argument of the outer call
  is the inner call expression itself, and the only outgoing edge of the outer call is
  the \<^verbatim>\<open>Argument\<close> edge to node \<open>8\<close>. The edges that arrive at node \<open>8\<close> are that
  \<^verbatim>\<open>Argument\<close> edge and the \<^verbatim>\<open>Child\<close> edge from \<open>bar\<close>, and the only edge that arrives at
  node \<open>6\<close> is the \<^verbatim>\<open>Child\<close> edge from \<open>bar\<close>: no node stands between the outer call and
  the inner call, and no \<^verbatim>\<open>Child\<close> edge of the graph starts at an \<^verbatim>\<open>Argument\<close> node.
\<close>

theorem scenarioA_one_node_for_each_call:
  "map (\<lambda>(k, n). (k, nodeType n)) (filter (\<lambda>(k, n). node n = MethodBar) (nodes fixtureGraph))
     = [(5, NFunction)]
   \<and> map (\<lambda>(k, n). (k, nodeType n)) (filter (\<lambda>(k, n). node n = CallOuter) (nodes fixtureGraph))
     = [(6, NCall)]
   \<and> map fst (filter (\<lambda>(k, n). node n = CallInner) (nodes fixtureGraph)) = [8]
   \<and> nodeToInfo fixtureGraph MethodBar = Some 5
   \<and> nodeToInfo fixtureGraph CallOuter = Some 6
   \<and> nodeToInfo fixtureGraph CallInner = Some 8
   \<and> getArguments fixtureModel CallOuter = [CallInner]
   \<and> map shape (outgoingOf fixtureGraph 5) = [(5, 6, EChild), (5, 8, EChild)]
   \<and> map shape (outgoingOf fixtureGraph 6) = [(6, 8, EArgument)]
   \<and> filter (\<lambda>(s, d, ty). d = 6) (map (\<lambda>(i, e). shape e) (edges fixtureGraph))
     = [(5, 6, EChild)]
   \<and> filter (\<lambda>(s, d, ty). d = 8) (map (\<lambda>(i, e). shape e) (edges fixtureGraph))
     = [(6, 8, EArgument), (5, 8, EChild)]
   \<and> filter (\<lambda>(s, d, ty). ty = EChild \<and> nodeTypeOf fixtureGraph s = Some NArgument)
        (map (\<lambda>(i, e). shape e) (edges fixtureGraph)) = []"
proof -
  have 1: "map (\<lambda>(k, n). (k, nodeType n)) (filter (\<lambda>(k, n). node n = MethodBar) (nodes fixtureGraph))
     = [(5, NFunction)]" by code_simp
  have 2: "map (\<lambda>(k, n). (k, nodeType n)) (filter (\<lambda>(k, n). node n = CallOuter) (nodes fixtureGraph))
     = [(6, NCall)]" by code_simp
  have 3: "map fst (filter (\<lambda>(k, n). node n = CallInner) (nodes fixtureGraph)) = [8]" by code_simp
  have 4: "nodeToInfo fixtureGraph MethodBar = Some 5" using fixture_registry by simp
  have 5: "nodeToInfo fixtureGraph CallOuter = Some 6" using fixture_registry by simp
  have 6: "nodeToInfo fixtureGraph CallInner = Some 8" using fixture_registry by simp
  have 7: "getArguments fixtureModel CallOuter = [CallInner]" by (simp add: fixtureModel_def)
  have 8: "map shape (outgoingOf fixtureGraph 5) = [(5, 6, EChild), (5, 8, EChild)]" by code_simp
  have 9: "map shape (outgoingOf fixtureGraph 6) = [(6, 8, EArgument)]" by code_simp
  have 10: "filter (\<lambda>(s, d, ty). d = 6) (map (\<lambda>(i, e). shape e) (edges fixtureGraph))
     = [(5, 6, EChild)]" by code_simp
  have 11: "filter (\<lambda>(s, d, ty). d = 8) (map (\<lambda>(i, e). shape e) (edges fixtureGraph))
     = [(6, 8, EArgument), (5, 8, EChild)]" by code_simp
  have 12: "filter (\<lambda>(s, d, ty). ty = EChild \<and> nodeTypeOf fixtureGraph s = Some NArgument)
        (map (\<lambda>(i, e). shape e) (edges fixtureGraph)) = []" by code_simp
  show ?thesis by (intro conjI) (fact 1 2 3 4 5 6 7 8 9 10 11 12)+
qed

text \<open>
  A callee that is not a bare identifier is not resolved: the definition processor has
  no part in what \<^verbatim>\<open>processCallExpression\<close> does with such a call, and nor has the answer
  of \<^verbatim>\<open>getDefinitionNodes()\<close>.
\<close>

lemma callee_not_identifier_is_not_resolved:
  assumes "getKind sm (getExpression sm call) \<noteq> Identifier"
  shows "processCallExpression_body sm pDef pArg call g
           = processCallExpression_body sm pDef' pArg call g"
    and "processCallExpression_body (sm\<lparr> getDefinitionNodes := defs \<rparr>) pDef pArg call g
           = processCallExpression_body sm pDef pArg call g"
  using assms by (simp_all add: processCallExpression_body_def split: prod.splits)

text \<open>
  Claim C7 (scenario B). In the graph built from the test input: \<open>foo\<close> has the only
  \<^verbatim>\<open>Object\<close> node (node \<open>1\<close>), whose one outgoing edge is a \<^verbatim>\<open>Call\<close> edge to the \<^verbatim>\<open>Call\<close>
  node of \<open>foo.bar(5, double)\<close> (node \<open>2\<close>); the arguments \<open>5\<close> and \<open>double\<close> have the
  \<^verbatim>\<open>Argument\<close> nodes \<open>3\<close> and \<open>4\<close>, and the outgoing edges of the call node are the two
  \<^verbatim>\<open>Argument\<close> edges to them, so that no \<^verbatim>\<open>Child\<close> edge starts at the call node, to the
  node of \<open>bar\<close> (node \<open>5\<close>) or elsewhere.

  The callee is a property access, and no resolution is attempted, although there is
  something to resolve: the model answers the declaration of \<open>bar\<close> for the definitions
  of \<open>foo.bar\<close>. Had the call been resolved to it, \<^verbatim>\<open>processDefinition\<close> would have
  registered \<open>bar\<close> with an \<^verbatim>\<open>Any\<close> node before the classes are processed; in the graph
  \<open>bar\<close> has a \<^verbatim>\<open>Function\<close> node with the edges of its body, and no edge arrives at it.
  The call is processed to the end with a definition processor that never returns, and
  what \<^verbatim>\<open>processCallExpression\<close> does at it is what its body does with such a
  processor in the place of \<^verbatim>\<open>processDefinition\<close>.
\<close>

theorem scenarioB_property_access_call:
  "nodeToInfo fixtureGraph VarFoo = Some 1 \<and> nodeTypeOf fixtureGraph 1 = Some NObject
   \<and> nodeToInfo fixtureGraph CallFooBar = Some 2 \<and> nodeTypeOf fixtureGraph 2 = Some NCall
   \<and> map shape (outgoingOf fixtureGraph 1) = [(1, 2, ECall)]
   \<and> nodeToInfo fixtureGraph Arg5 = Some 3 \<and> nodeTypeOf fixtureGraph 3 = Some NArgument
   \<and> nodeToInfo fixtureGraph ArgDouble = Some 4 \<and> nodeTypeOf fixtureGraph 4 = Some NArgument
   \<and> map shape (outgoingOf fixtureGraph 2) = [(2, 3, EArgument), (2, 4, EArgument)]
   \<and> nodeToInfo fixtureGraph MethodBar = Some 5
   \<and> filter (\<lambda>(s, d, ty). s = 2 \<and> ty = EChild) (map (\<lambda>(i, e). shape e) (edges fixtureGraph)) = []
   \<and> map (\<lambda>(k, n). (k, node n)) (filter (\<lambda>(k, n). nodeType n = NObject) (nodes fixtureGraph))
       = [(1, VarFoo)]
   \<and> getKind fixtureModel (getExpression fixtureModel CallFooBar) = PropertyAccessExpression
   \<and> isReturns (processCallExpression_body fixtureModel (\<lambda>definition g. Diverges)
                   (processArgument fixtureModel 1) CallFooBar newGraph)
   \<and> getDefinitionNodes fixtureModel (getExpression fixtureModel CallFooBar) = [MethodBar]
   \<and> nodeTypeOf fixtureGraph 5 = Some NFunction
   \<and> map shape (outgoingOf fixtureGraph 5) = [(5, 6, EChild), (5, 8, EChild)]
   \<and> filter (\<lambda>(s, d, ty). d = 5) (map (\<lambda>(i, e). shape e) (edges fixtureGraph)) = []
   \<and> map (\<lambda>(k, n). (k, node n)) (filter (\<lambda>(k, n). nodeType n = NAny) (nodes fixtureGraph))
       = [(7, ParamCallback)]
   \<and> processCallExpression fixtureModel 3 CallFooBar newGraph
       = processCallExpression_body fixtureModel (\<lambda>definition g. Diverges)
           (processArgument fixtureModel 2) CallFooBar newGraph"
proof -
  have 1: "map shape (outgoingOf fixtureGraph 1) = [(1, 2, ECall)]" by code_simp
  have 2: "map shape (outgoingOf fixtureGraph 2) = [(2, 3, EArgument), (2, 4, EArgument)]" by code_simp
  have 3: "filter (\<lambda>(s, d, ty). s = 2 \<and> ty = EChild) (map (\<lambda>(i, e). shape e) (edges fixtureGraph)) = []"
    by code_simp
  have 4: "map (\<lambda>(k, n). (k, node n)) (filter (\<lambda>(k, n). nodeType n = NObject) (nodes fixtureGraph))
       = [(1, VarFoo)]" by code_simp
  have 5: "getKind fixtureModel (getExpression fixtureModel CallFooBar) = PropertyAccessExpression"
    by (simp add: fixtureModel_def)
  have 6: "isReturns (processCallExpression_body fixtureModel (\<lambda>definition g. Diverges)
                   (processArgument fixtureModel 1) CallFooBar newGraph)" by code_simp
  have 7: "getDefinitionNodes fixtureModel (getExpression fixtureModel CallFooBar) = [MethodBar]"
    by (simp add: fixtureModel_def)
  have 8: "map shape (outgoingOf fixtureGraph 5) = [(5, 6, EChild), (5, 8, EChild)]" by code_simp
  have 9: "filter (\<lambda>(s, d, ty). d = 5) (map (\<lambda>(i, e). shape e) (edges fixtureGraph)) = []"
    by code_simp
  have 10: "map (\<lambda>(k, n). (k, node n)) (filter (\<lambda>(k, n). nodeType n = NAny) (nodes fixtureGraph))
       = [(7, ParamCallback)]" by code_simp
  have ne: "getKind fixtureModel (getExpression fixtureModel CallFooBar) \<noteq> Identifier"
    using 5 by simp
  have s3: "(3::nat) = Suc 2" by simp
  have "processCallExpression fixtureModel (Suc 2) CallFooBar newGraph
       = processCallExpression_body fixtureModel (processDefinition fixtureModel 2)
           (processArgument fixtureModel 2) CallFooBar newGraph"
    by (simp only: processCallExpression.simps)
  also have "\<dots> = processCallExpression_body fixtureModel (\<lambda>definition g. Diverges)
           (processArgument fixtureModel 2) CallFooBar newGraph"
    using ne by (rule callee_not_identifier_is_not_resolved(1))
  finally have 11: "processCallExpression fixtureModel 3 CallFooBar newGraph
       = processCallExpression_body fixtureModel (\<lambda>definition g. Diverges)
           (processArgument fixtureModel 2) CallFooBar newGraph"
    unfolding s3 .
  have r: "nodeToInfo fixtureGraph VarFoo = Some 1" "nodeToInfo fixtureGraph CallFooBar = Some 2"
    "nodeToInfo fixtureGraph Arg5 = Some 3" "nodeToInfo fixtureGraph ArgDouble = Some 4"
    "nodeToInfo fixtureGraph MethodBar = Some 5"
    using fixture_registry by simp_all
  have t: "nodeTypeOf fixtureGraph 1 = Some NObject" "nodeTypeOf fixtureGraph 2 = Some NCall"
    "nodeTypeOf fixtureGraph 3 = Some NArgument" "nodeTypeOf fixtureGraph 4 = Some NArgument"
    "nodeTypeOf fixtureGraph 5 = Some NFunction"
    using fixture_types by simp_all
  show ?thesis by (intro conjI) (fact r t 1 2 3 4 5 6 7 8 9 10 11)+
qed

section \<open>First registration fixes the type\<close>

definition argumentFirst :: "fixture CodeFlowGraph" where
  "argumentFirst = resultGraph (processArgument fixtureModel 5 CallInner newGraph)"

text \<open>
  Claim C9 (first registration fixes a node's type). Let \<^verbatim>\<open>processArgument\<close> return the
  node \<open>k\<close> for a construct \<open>c\<close> that had no node, in a consistent store. Then \<open>c\<close> is
  registered with \<open>k\<close>, of type \<^verbatim>\<open>Argument\<close>; a later \<^verbatim>\<open>addNodeIsNew\<close> for \<open>c\<close> with any
  requested type answers \<open>k\<close> with \<^verbatim>\<open>isNew = false\<close> and changes nothing; and a later
  \<^verbatim>\<open>processCallExpression\<close> on \<open>c\<close> returns that node, creating no \<^verbatim>\<open>Call\<close> node. The
  witness is the inner call of the test input.
\<close>

theorem first_registration_fixes_the_type:
  assumes ok: "store_ok g" and new: "nodeToInfo g c = None"
    and arg: "processArgument sm n c g = Returns (k, g')"
  shows "nodeToInfo g' c = Some k \<and> nodeTypeOf g' k = Some NArgument
         \<and> addNodeIsNew c ty g' = (k, False, g')
         \<and> processCallExpression sm (Suc m) c g' = Returns (k, g')"
proof -
  obtain n' where n: "n = Suc n'" using arg by (cases n) simp_all
  have i: "inv False sm g" using ok by (simp add: inv_False)
  let ?P = "processCallExpression sm n'"
  have P: "good_process False sm ?P" using process_good [of False sm n'] by simp
  have body: "processArgument_body sm ?P c g = Returns (k, g')" using arg n by simp
  obtain g1 where a: "addNodeIsNew c NArgument g = (NEXT_NODE_ID g, True, g1)"
    using new by (simp add: addNodeIsNew_new)
  have "linkEach ?P (NEXT_NODE_ID g) EChild (getDescendantCalls sm c) g1 = Returns g' \<and> k = NEXT_NODE_ID g"
    using body a by (auto simp: processArgument_body_def andThen_Returns_iff)
  then have loop: "linkEach ?P (NEXT_NODE_ID g) EChild (getDescendantCalls sm c) g1 = Returns g'"
    and k: "k = NEXT_NODE_ID g" by simp_all
  have i1: "inv False sm g1" using i a by (rule addNodeIsNew_inv) simp
  have t1: "nodeTypeOf g1 k = Some NArgument" using addNodeIsNew_type [OF a] k by simp
  have r1: "nodeToInfo g1 c = Some k" using addNodeIsNew_registered [OF a] k by simp
  have 2: "inv False sm g' \<and> extends g1 g'"
    using P i1 _ _ loop by (rule linkEach_good) simp_all
  have r: "nodeToInfo g' c = Some k" using 2 [THEN conjunct2] r1 by (rule extends_registered)
  have t: "nodeTypeOf g' k = Some NArgument" using 2 [THEN conjunct2] t1 by (rule extends_nodeTypeOf)
  have o: "addNodeIsNew c ty g' = (k, False, g')" for ty using r by (rule addNodeIsNew_old)
  have p: "processCallExpression sm (Suc m) c g' = Returns (k, g')"
    by (simp add: processCallExpression_body_def o)
  show ?thesis using r t o p by simp
qed

theorem first_registration_fixes_the_type_witness:
  "store_ok (newGraph :: fixture CodeFlowGraph)
   \<and> nodeToInfo (newGraph :: fixture CodeFlowGraph) CallInner = None
   \<and> processArgument fixtureModel 5 CallInner newGraph = Returns (0, argumentFirst)
   \<and> nodeToInfo argumentFirst CallInner = Some 0
   \<and> nodeTypeOf argumentFirst 0 = Some NArgument
   \<and> addNodeIsNew CallInner NCall argumentFirst = (0, False, argumentFirst)
   \<and> processCallExpression fixtureModel 1 CallInner argumentFirst = Returns (0, argumentFirst)"
proof -
  have a: "store_ok (newGraph :: fixture CodeFlowGraph)"
    using inv_newGraph [of False fixtureModel] by (simp add: inv_False)
  have b: "nodeToInfo (newGraph :: fixture CodeFlowGraph) CallInner = None"
    by (simp add: newGraph_def)
  have "resultNode (processArgument fixtureModel 5 CallInner newGraph) = Some 0" by code_simp
  then have c: "processArgument fixtureModel 5 CallInner newGraph = Returns (0, argumentFirst)"
    unfolding argumentFirst_def by (rule result_eq)
  show ?thesis
    using first_registration_fixes_the_type [OF a b c, of NCall 0] a b c by simp
qed

section \<open>Processing a construct twice\<close>

text \<open>
  The registry only grows: \<open>regs g g'\<close> says that every construct registered in \<open>g\<close> is
  registered with the same node in \<open>g'\<close>. No assumption on the graph is needed for it.
\<close>

definition regs :: "'c CodeFlowGraph \<Rightarrow> 'c CodeFlowGraph \<Rightarrow> bool" where
  "regs g g' \<longleftrightarrow> (\<forall>c k. nodeToInfo g c = Some k \<longrightarrow> nodeToInfo g' c = Some k)"

lemma regs_refl [simp]: "regs g g"
  by (simp add: regs_def)

lemma regs_trans: "regs g h \<Longrightarrow> regs h k \<Longrightarrow> regs g k"
  by (simp add: regs_def)

lemma regs_registered: "regs g g' \<Longrightarrow> nodeToInfo g c = Some k \<Longrightarrow> nodeToInfo g' c = Some k"
  by (simp add: regs_def)

lemma addNodeIsNew_regs: "addNodeIsNew c ty g = (k, isNew, g') \<Longrightarrow> regs g g'"
  by (auto simp: addNodeIsNew_def regs_def Let_def split: option.splits)

lemma addEdge_regs [simp]: "regs g (snd (addEdge s d ty g))"
  by (simp add: regs_def)

definition keeps :: "'c process \<Rightarrow> bool" where
  "keeps P \<longleftrightarrow> (\<forall>c g r g'. P c g = Returns (r, g') \<longrightarrow> regs g g' \<and> nodeToInfo g' c = Some r)"

definition keepsOpt :: "'c processOpt \<Rightarrow> bool" where
  "keepsOpt P \<longleftrightarrow>
     (\<forall>c g r g'. P c g = Returns (r, g') \<longrightarrow>
        regs g g' \<and> (\<forall>k. r = Some k \<longrightarrow> nodeToInfo g' c = Some k))"

definition keepsVar ::
  "('c \<Rightarrow> bool \<Rightarrow> 'c CodeFlowGraph \<Rightarrow> (nat option \<times> 'c CodeFlowGraph) result) \<Rightarrow> bool" where
  "keepsVar P \<longleftrightarrow>
     (\<forall>c b g r g'. P c b g = Returns (r, g') \<longrightarrow>
        regs g g' \<and> (\<forall>k. r = Some k \<longrightarrow> nodeToInfo g' c = Some k))"

lemma keepsD:
  assumes "keeps P" "P c g = Returns (r, g')"
  shows "regs g g'" "nodeToInfo g' c = Some r"
  using assms unfolding keeps_def by blast+

lemma linkEach_regs:
  assumes P: "keeps P" and run: "linkEach P src ty xs g = Returns g'"
  shows "regs g g'"
proof (rule forEach_invariant [OF run [unfolded linkEach_def], where Q = "regs g"])
  show "regs g g" by simp
next
  fix x h h'
  assume Qh: "regs g h"
    and b: "andThen (P x h) (\<lambda>(info, g''). Returns (snd (addEdge src info ty g''))) = Returns h'"
  have "\<exists>info h1. P x h = Returns (info, h1) \<and> h' = snd (addEdge src info ty h1)"
    using b by (auto simp: andThen_Returns_iff)
  then obtain info h1 where 1: "P x h = Returns (info, h1)"
    and h': "h' = snd (addEdge src info ty h1)" by blast
  have "regs h h1" using P 1 by (rule keepsD)
  then have "regs g h1" using Qh regs_trans by blast
  then show "regs g h'" unfolding h' by (simp add: regs_def)
qed

lemma referencesLoop_regs:
  assumes P: "keeps P" and run: "referencesLoop sm P src refs g = Returns g'"
  shows "regs g g'"
proof (rule forEach_invariant [OF run [unfolded referencesLoop_def], where Q = "regs g"])
  show "regs g g" by simp
next
  fix x h h'
  assume Qh: "regs g h"
    and b: "(case getParent sm x of
               None \<Rightarrow> Throws NoParent
             | Some temp \<Rightarrow>
                 (case getParent sm temp of
                    None \<Rightarrow> Throws NoParent
                  | Some call \<Rightarrow>
                      if getKind sm call = CallExpression \<and> getExpression sm call = temp
                      then andThen (P call h)
                             (\<lambda>(callInfo, g''). Returns (snd (addEdge src callInfo ECall g'')))
                      else Returns h)) = Returns h'"
  have "h' = h \<or> (\<exists>call callInfo h1. P call h = Returns (callInfo, h1)
            \<and> h' = snd (addEdge src callInfo ECall h1))"
    using b by (auto simp: andThen_Returns_iff split: option.splits if_splits)
  then show "regs g h'"
  proof
    assume "h' = h"
    then show ?thesis using Qh by simp
  next
    assume "\<exists>call callInfo h1. P call h = Returns (callInfo, h1)
            \<and> h' = snd (addEdge src callInfo ECall h1)"
    then obtain call callInfo h1 where 1: "P call h = Returns (callInfo, h1)"
      and h': "h' = snd (addEdge src callInfo ECall h1)" by blast
    have "regs h h1" using P 1 by (rule keepsD)
    then have "regs g h1" using Qh regs_trans by blast
    then show "regs g h'" unfolding h' by (simp add: regs_def)
  qed
qed

lemma definitionsLoop_regs:
  assumes D: "keepsOpt D" and run: "definitionsLoop D src defs g = Returns g'"
  shows "regs g g'"
proof (rule forEach_invariant [OF run [unfolded definitionsLoop_def], where Q = "regs g"])
  show "regs g g" by simp
next
  fix x h h'
  assume Qh: "regs g h"
    and b: "andThen (D x h)
              (\<lambda>(definitionInfo, g'').
                 case definitionInfo of
                   None \<Rightarrow> Throws UndefinedOutgoing
                 | Some d \<Rightarrow> splice d src g'') = Returns h'"
  have "\<exists>d h1. D x h = Returns (Some d, h1) \<and> splice d src h1 = Returns h'"
    using b by (auto simp: andThen_Returns_iff split: option.splits)
  then obtain d h1 where 1: "D x h = Returns (Some d, h1)"
    and 2: "splice d src h1 = Returns h'" by blast
  have "regs h h1" using D 1 unfolding keepsOpt_def by blast
  then have gh1: "regs g h1" using Qh regs_trans by blast
  show "regs g h'"
  proof (rule splice_invariant [OF 2, where Q = "regs g"])
    show "regs g h1" by (rule gh1)
  next
    fix y k assume "regs g k"
    then show "regs g (snd (addEdge src y EChild k))" by (simp add: regs_def)
  qed
qed

lemma registered_loop_regs:
  assumes P: "keeps P" and a: "addNodeIsNew c ty g = (src, isNew, g1)"
    and loop: "linkEach P src EChild calls g1 = Returns g'"
  shows "regs g g' \<and> nodeToInfo g' c = Some src"
proof -
  have e1: "regs g g1" using a by (rule addNodeIsNew_regs)
  have r1: "nodeToInfo g1 c = Some src" using a by (rule addNodeIsNew_registered)
  have 2: "regs g1 g'" using P loop by (rule linkEach_regs)
  have "regs g g'" using e1 2 by (rule regs_trans)
  moreover have "nodeToInfo g' c = Some src" using 2 r1 by (rule regs_registered)
  ultimately show ?thesis by simp
qed

lemma processFunctionDeclaration_body_keeps:
  assumes P: "keeps P" and run: "processFunctionDeclaration_body sm P c g = Returns (r, g')"
  shows "regs g g' \<and> nodeToInfo g' c = Some r"
proof -
  obtain src isNew g1 where a: "addNodeIsNew c NFunction g = (src, isNew, g1)"
    using prod_cases3 by blast
  show ?thesis
  proof (cases isNew)
    case False
    then have "addNodeIsNew c NFunction g = (src, False, g1)" using a by simp
    then have "g1 = g \<and> nodeToInfo g c = Some src" by (rule registered_old)
    then show ?thesis using run a False by (simp add: processFunctionDeclaration_body_def)
  next
    case True
    then have "\<exists>body. linkEach P src EChild (getDescendantCalls sm body) g1 = Returns g' \<and> r = src"
      using run a
      by (auto simp: processFunctionDeclaration_body_def andThen_Returns_iff split: option.splits)
    then obtain body where loop: "linkEach P src EChild (getDescendantCalls sm body) g1 = Returns g'"
      and res: "r = src" by blast
    show ?thesis unfolding res using P a loop by (rule registered_loop_regs)
  qed
qed

lemma processMethodDeclaration_keeps:
  assumes P: "keeps (processCallExpression sm n)"
    and run: "processMethodDeclaration sm n c g = Returns (r, g')"
  shows "regs g g' \<and> nodeToInfo g' c = Some r"
proof -
  obtain src isNew g1 where a: "addNodeIsNew c NFunction g = (src, isNew, g1)"
    using prod_cases3 by blast
  show ?thesis
  proof (cases isNew)
    case False
    then have "addNodeIsNew c NFunction g = (src, False, g1)" using a by simp
    then have "g1 = g \<and> nodeToInfo g c = Some src" by (rule registered_old)
    then show ?thesis using run a False by (simp add: processMethodDeclaration_def)
  next
    case True
    then have "\<exists>body. linkEach (processCallExpression sm n) src EChild (getDescendantCalls sm body) g1
                 = Returns g' \<and> r = src"
      using run a
      by (auto simp: processMethodDeclaration_def andThen_Returns_iff split: option.splits)
    then obtain body where
      loop: "linkEach (processCallExpression sm n) src EChild (getDescendantCalls sm body) g1 = Returns g'"
      and res: "r = src" by blast
    show ?thesis unfolding res using P a loop by (rule registered_loop_regs)
  qed
qed

lemma processArgument_body_keeps:
  assumes P: "keeps P" and run: "processArgument_body sm P c g = Returns (r, g')"
  shows "regs g g' \<and> nodeToInfo g' c = Some r"
proof -
  obtain src isNew g1 where a: "addNodeIsNew c NArgument g = (src, isNew, g1)"
    using prod_cases3 by blast
  show ?thesis
  proof (cases isNew)
    case False
    then have "addNodeIsNew c NArgument g = (src, False, g1)" using a by simp
    then have "g1 = g \<and> nodeToInfo g c = Some src" by (rule registered_old)
    then show ?thesis using run a False by (simp add: processArgument_body_def)
  next
    case True
    then have "linkEach P src EChild (getDescendantCalls sm c) g1 = Returns g' \<and> r = src"
      using run a by (auto simp: processArgument_body_def andThen_Returns_iff)
    then have loop: "linkEach P src EChild (getDescendantCalls sm c) g1 = Returns g'"
      and res: "r = src" by simp_all
    show ?thesis unfolding res using P a loop by (rule registered_loop_regs)
  qed
qed

lemma processVariableDeclaration_body_keeps:
  assumes P: "keeps P" and run: "processVariableDeclaration_body sm P c b g = Returns (r, g')"
  shows "regs g g' \<and> (\<forall>k. r = Some k \<longrightarrow> nodeToInfo g' c = Some k)"
proof (cases "b \<and> \<not> isExported sm c")
  case True
  then show ?thesis using run by (simp add: processVariableDeclaration_body_def)
next
  case False
  from False run obtain init where init: "getInitializer sm c = Some init"
    by (auto simp: processVariableDeclaration_body_def split: option.splits)
  let ?functionLike = "getKind sm init = ArrowFunction \<or> getKind sm init = FunctionExpression"
  let ?ty = "if ?functionLike then NFunction else NObject"
  obtain src isNew g1 where a: "addNodeIsNew c ?ty g = (src, isNew, g1)"
    using prod_cases3 by blast
  have run': "(if \<not> isNew then Returns (Some src, g1)
               else if ?functionLike then
                 (case getBody sm init of
                    None \<Rightarrow> Throws NoBody
                  | Some body \<Rightarrow>
                      andThen (linkEach P src EChild (getDescendantCalls sm body) g1)
                        (\<lambda>g2. Returns (Some src, g2)))
               else
                 andThen (referencesLoop sm P src (concat (findReferences sm c)) g1)
                   (\<lambda>g2. Returns (Some src, g2))) = Returns (r, g')"
    using run False init a
    by (simp add: processVariableDeclaration_body_def Let_def split del: if_split)
  show ?thesis
  proof (cases isNew)
    case False
    then have "addNodeIsNew c ?ty g = (src, False, g1)" using a by simp
    then have "g1 = g \<and> nodeToInfo g c = Some src" by (rule registered_old)
    then show ?thesis using run' False by simp
  next
    case True
    have e1: "regs g g1" using a by (rule addNodeIsNew_regs)
    have r1: "nodeToInfo g1 c = Some src" using a by (rule addNodeIsNew_registered)
    show ?thesis
    proof (cases ?functionLike)
      case fl: True
      then have "\<exists>body. linkEach P src EChild (getDescendantCalls sm body) g1 = Returns g' \<and> r = Some src"
        using run' True by (auto simp: andThen_Returns_iff split: option.splits)
      then obtain body where loop: "linkEach P src EChild (getDescendantCalls sm body) g1 = Returns g'"
        and res: "r = Some src" by blast
      have "regs g g' \<and> nodeToInfo g' c = Some src"
        using P a loop by (rule registered_loop_regs)
      then show ?thesis using res by simp
    next
      case nfl: False
      then have "referencesLoop sm P src (concat (findReferences sm c)) g1 = Returns g' \<and> r = Some src"
        using run' True by (auto simp: andThen_Returns_iff)
      then have loop: "referencesLoop sm P src (concat (findReferences sm c)) g1 = Returns g'"
        and res: "r = Some src" by simp_all
      have 2: "regs g1 g'" using P loop by (rule referencesLoop_regs)
      have e2: "regs g g'" using e1 2 by (rule regs_trans)
      have r2: "nodeToInfo g' c = Some src" using 2 r1 by (rule regs_registered)
      show ?thesis using e2 r2 res by simp
    qed
  qed
qed

lemma processCallExpression_body_keeps:
  assumes D: "keepsOpt D" and A: "keeps A"
    and run: "processCallExpression_body sm D A c g = Returns (r, g')"
  shows "regs g g' \<and> nodeToInfo g' c = Some r"
proof -
  obtain src isNew g1 where a: "addNodeIsNew c NCall g = (src, isNew, g1)"
    using prod_cases3 by blast
  show ?thesis
  proof (cases isNew)
    case False
    then have "addNodeIsNew c NCall g = (src, False, g1)" using a by simp
    then have "g1 = g \<and> nodeToInfo g c = Some src" by (rule registered_old)
    then show ?thesis using run a False by (simp add: processCallExpression_body_def)
  next
    case True
    have e1: "regs g g1" using a by (rule addNodeIsNew_regs)
    have r1: "nodeToInfo g1 c = Some src" using a by (rule addNodeIsNew_registered)
    have "\<exists>g2. (if getKind sm (getExpression sm c) = Identifier
               then definitionsLoop D src (getDefinitionNodes sm (getExpression sm c)) g1
               else Returns g1) = Returns g2
            \<and> linkEach A src EArgument (getArguments sm c) g2 = Returns g' \<and> r = src"
      using run a True by (auto simp: processCallExpression_body_def andThen_Returns_iff)
    then obtain g2 where
      defs: "(if getKind sm (getExpression sm c) = Identifier
               then definitionsLoop D src (getDefinitionNodes sm (getExpression sm c)) g1
               else Returns g1) = Returns g2"
      and args: "linkEach A src EArgument (getArguments sm c) g2 = Returns g'"
      and res: "r = src" by blast
    have 2: "regs g1 g2"
    proof (cases "getKind sm (getExpression sm c) = Identifier")
      case True
      then have "definitionsLoop D src (getDefinitionNodes sm (getExpression sm c)) g1 = Returns g2"
        using defs by simp
      with D show ?thesis by (rule definitionsLoop_regs)
    next
      case False
      then show ?thesis using defs by simp
    qed
    have 3: "regs g2 g'" using A args by (rule linkEach_regs)
    have e3: "regs g g'" using regs_trans [OF regs_trans [OF e1 2] 3] .
    have r3: "nodeToInfo g' c = Some src"
      using regs_registered [OF 3 regs_registered [OF 2 r1]] .
    show ?thesis using e3 r3 res by simp
  qed
qed

lemma processDefinition_body_keeps:
  assumes V: "keepsVar V" and F: "keeps F"
    and run: "processDefinition_body sm V F c g = Returns (r, g')"
  shows "regs g g' \<and> (\<forall>k. r = Some k \<longrightarrow> nodeToInfo g' c = Some k)"
proof (cases "getKind sm c = VariableDeclaration")
  case True
  then have "V c True g = Returns (r, g')" using run by (simp add: processDefinition_body_def)
  then show ?thesis using V unfolding keepsVar_def by blast
next
  case nv: False
  show ?thesis
  proof (cases "getKind sm c = FunctionDeclaration")
    case True
    then have "\<exists>src. F c g = Returns (src, g') \<and> r = Some src"
      using run nv by (auto simp: processDefinition_body_def andThen_Returns_iff)
    then obtain src where 1: "F c g = Returns (src, g')" and res: "r = Some src" by blast
    show ?thesis using keepsD [OF F 1] res by simp
  next
    case False
    obtain src isNew g1 where a: "addNodeIsNew c NAny g = (src, isNew, g1)"
      using prod_cases3 by blast
    then have res: "r = Some src" "g' = g1"
      using run nv False by (simp_all add: processDefinition_body_def addNode_def)
    have e1: "regs g g1" using a by (rule addNodeIsNew_regs)
    have r1: "nodeToInfo g1 c = Some src" using a by (rule addNodeIsNew_registered)
    show ?thesis using e1 r1 res by simp
  qed
qed

lemma process_keeps:
  "keepsVar (processVariableDeclaration sm n)
   \<and> keeps (processCallExpression sm n)
   \<and> keepsOpt (processDefinition sm n)
   \<and> keeps (processFunctionDeclaration sm n)
   \<and> keeps (processArgument sm n)"
proof (induction n)
  case 0
  show ?case by (simp add: keepsVar_def keeps_def keepsOpt_def)
next
  case (Suc n)
  then have V: "keepsVar (processVariableDeclaration sm n)"
    and C: "keeps (processCallExpression sm n)"
    and D: "keepsOpt (processDefinition sm n)"
    and F: "keeps (processFunctionDeclaration sm n)"
    and A: "keeps (processArgument sm n)" by simp_all
  have "keepsVar (processVariableDeclaration sm (Suc n))"
    unfolding keepsVar_def using processVariableDeclaration_body_keeps [OF C] by simp
  moreover have "keeps (processCallExpression sm (Suc n))"
    unfolding keeps_def using processCallExpression_body_keeps [OF D A] by simp
  moreover have "keepsOpt (processDefinition sm (Suc n))"
    unfolding keepsOpt_def using processDefinition_body_keeps [OF V F] by simp
  moreover have "keeps (processFunctionDeclaration sm (Suc n))"
    unfolding keeps_def using processFunctionDeclaration_body_keeps [OF C] by simp
  moreover have "keeps (processArgument sm (Suc n))"
    unfolding keeps_def using processArgument_body_keeps [OF C] by simp
  ultimately show ?case by blast
qed


lemma processCallExpression_again:
  assumes "processCallExpression sm n c g = Returns (k, g')"
  shows "processCallExpression sm (Suc m) c g' = Returns (k, g')"
proof -
  have "keeps (processCallExpression sm n)" using process_keeps [of sm n] by simp
  then have "nodeToInfo g' c = Some k" using assms by (rule keepsD(2))
  then show ?thesis by (simp add: processCallExpression_body_def addNodeIsNew_old)
qed

lemma processArgument_again:
  assumes "processArgument sm n c g = Returns (k, g')"
  shows "processArgument sm (Suc m) c g' = Returns (k, g')"
proof -
  have "keeps (processArgument sm n)" using process_keeps [of sm n] by simp
  then have "nodeToInfo g' c = Some k" using assms by (rule keepsD(2))
  then show ?thesis by (simp add: processArgument_body_def addNodeIsNew_old)
qed

lemma processFunctionDeclaration_again:
  assumes "processFunctionDeclaration sm n c g = Returns (k, g')"
  shows "processFunctionDeclaration sm (Suc m) c g' = Returns (k, g')"
proof -
  have "keeps (processFunctionDeclaration sm n)" using process_keeps [of sm n] by simp
  then have "nodeToInfo g' c = Some k" using assms by (rule keepsD(2))
  then show ?thesis by (simp add: processFunctionDeclaration_body_def addNodeIsNew_old)
qed

lemma processMethodDeclaration_again:
  assumes "processMethodDeclaration sm n c g = Returns (k, g')"
  shows "processMethodDeclaration sm m c g' = Returns (k, g')"
proof -
  have "keeps (processCallExpression sm n)" using process_keeps [of sm n] by simp
  then have "nodeToInfo g' c = Some k"
    using processMethodDeclaration_keeps [OF _ assms] by simp
  then show ?thesis by (simp add: processMethodDeclaration_def addNodeIsNew_old)
qed

lemma processVariableDeclaration_body_cases:
  assumes "processVariableDeclaration_body sm P c b g = Returns (r, g')"
  shows "(b \<and> \<not> isExported sm c \<and> r = None \<and> g' = g)
         \<or> (\<not> (b \<and> \<not> isExported sm c) \<and> (\<exists>init. getInitializer sm c = Some init) \<and> (\<exists>k. r = Some k))"
proof (cases "b \<and> \<not> isExported sm c")
  case True
  then show ?thesis using assms by (simp add: processVariableDeclaration_body_def)
next
  case False
  from False assms obtain init where init: "getInitializer sm c = Some init"
    by (auto simp: processVariableDeclaration_body_def split: option.splits)
  have "\<exists>k. r = Some k"
    using assms False init
    by (auto simp: processVariableDeclaration_body_def Let_def andThen_Returns_iff
        split: prod.splits if_splits option.splits)
  then show ?thesis using False init by simp
qed

lemma processVariableDeclaration_again:
  assumes "processVariableDeclaration sm n c b g = Returns (r, g')"
  shows "processVariableDeclaration sm (Suc m) c b g' = Returns (r, g')"
proof -
  obtain n' where n: "n = Suc n'" using assms by (cases n) simp_all
  have body: "processVariableDeclaration_body sm (processCallExpression sm n') c b g = Returns (r, g')"
    using assms n by simp
  from processVariableDeclaration_body_cases [OF body] show ?thesis
  proof
    assume "b \<and> \<not> isExported sm c \<and> r = None \<and> g' = g"
    then show ?thesis by (simp add: processVariableDeclaration_body_def)
  next
    assume *: "\<not> (b \<and> \<not> isExported sm c) \<and> (\<exists>init. getInitializer sm c = Some init) \<and> (\<exists>k. r = Some k)"
    then obtain init k where init: "getInitializer sm c = Some init" and r: "r = Some k" by blast
    have "keepsVar (processVariableDeclaration sm n)" using process_keeps [of sm n] by simp
    then have "nodeToInfo g' c = Some k" using assms r unfolding keepsVar_def by blast
    then show ?thesis
      using * init r by (simp add: processVariableDeclaration_body_def addNodeIsNew_old)
  qed
qed

lemma processDefinition_again:
  assumes "processDefinition sm n c g = Returns (r, g')"
  shows "processDefinition sm (Suc (Suc m)) c g' = Returns (r, g')"
proof -
  obtain n' where n: "n = Suc n'" using assms by (cases n) simp_all
  have body: "processDefinition_body sm (processVariableDeclaration sm n')
                (processFunctionDeclaration sm n') c g = Returns (r, g')"
    using assms n by simp
  show ?thesis
  proof (cases "getKind sm c = VariableDeclaration")
    case True
    then have "processVariableDeclaration sm n' c True g = Returns (r, g')"
      using body by (simp add: processDefinition_body_def)
    then have "processVariableDeclaration sm (Suc m) c True g' = Returns (r, g')"
      by (rule processVariableDeclaration_again)
    then show ?thesis using True
      by (simp add: processDefinition_body_def del: processVariableDeclaration.simps)
  next
    case nv: False
    show ?thesis
    proof (cases "getKind sm c = FunctionDeclaration")
      case True
      then have "\<exists>k. processFunctionDeclaration sm n' c g = Returns (k, g') \<and> r = Some k"
        using body nv by (auto simp: processDefinition_body_def andThen_Returns_iff)
      then obtain k where 1: "processFunctionDeclaration sm n' c g = Returns (k, g')"
        and r: "r = Some k" by blast
      have "processFunctionDeclaration sm (Suc m) c g' = Returns (k, g')"
        using 1 by (rule processFunctionDeclaration_again)
      then show ?thesis using True nv r
        by (simp add: processDefinition_body_def del: processFunctionDeclaration.simps)
    next
      case False
      have "keepsOpt (processDefinition sm n)" using process_keeps [of sm n] by simp
      moreover have "\<exists>k. r = Some k"
        using body nv False by (auto simp: processDefinition_body_def addNode_def split: prod.splits)
      ultimately obtain k where r: "r = Some k" and reg: "nodeToInfo g' c = Some k"
        using assms unfolding keepsOpt_def by blast
      show ?thesis using nv False r reg
        by (simp add: processDefinition_body_def addNode_def addNodeIsNew_old)
    qed
  qed
qed

definition afterMethod :: "fixture CodeFlowGraph" where
  "afterMethod = resultGraph (processMethodDeclaration fixtureModel 5 MethodBar newGraph)"

definition afterFunction :: "second CodeFlowGraph" where
  "afterFunction = resultGraph (processFunctionDeclaration secondModel 8 FunMain newGraph)"

definition afterCall :: "fixture CodeFlowGraph" where
  "afterCall = resultGraph (processCallExpression fixtureModel 5 CallOuter newGraph)"

definition afterVariable :: "fixture CodeFlowGraph" where
  "afterVariable = resultGraph (processVariableDeclaration fixtureModel 5 VarFoo True newGraph)"

definition afterDefinition :: "fixture CodeFlowGraph" where
  "afterDefinition = resultGraph (processDefinition fixtureModel 5 ParamCallback newGraph)"

text \<open>
  Claim C3 (node uniqueness and idempotence). Whenever one of the six \<^verbatim>\<open>process\<close>
  methods has returned for a construct \<open>c\<close>, from any graph and for any source model,
  the same method called again on \<open>c\<close> in the graph it left returns the same node (or
  the same \<^verbatim>\<open>undefined\<close>) and leaves that graph exactly as it is: nodes, edges,
  adjacency lists and counters. The second call needs depth \<open>1\<close> (\<open>2\<close> for
  \<^verbatim>\<open>processDefinition\<close>, which delegates once), that is, it expands nothing.
\<close>

theorem second_processing_changes_nothing:
  "(processMethodDeclaration sm n c g = Returns (k, g')
      \<longrightarrow> processMethodDeclaration sm m c g' = Returns (k, g'))
   \<and> (processFunctionDeclaration sm n c g = Returns (k, g')
      \<longrightarrow> processFunctionDeclaration sm (Suc m) c g' = Returns (k, g'))
   \<and> (processArgument sm n c g = Returns (k, g')
      \<longrightarrow> processArgument sm (Suc m) c g' = Returns (k, g'))
   \<and> (processCallExpression sm n c g = Returns (k, g')
      \<longrightarrow> processCallExpression sm (Suc m) c g' = Returns (k, g'))
   \<and> (processVariableDeclaration sm n c b g = Returns (r, g')
      \<longrightarrow> processVariableDeclaration sm (Suc m) c b g' = Returns (r, g'))
   \<and> (processDefinition sm n c g = Returns (r, g')
      \<longrightarrow> processDefinition sm (Suc (Suc m)) c g' = Returns (r, g'))"
proof (intro conjI impI)
  assume "processMethodDeclaration sm n c g = Returns (k, g')"
  then show "processMethodDeclaration sm m c g' = Returns (k, g')"
    by (rule processMethodDeclaration_again)
next
  assume "processFunctionDeclaration sm n c g = Returns (k, g')"
  then show "processFunctionDeclaration sm (Suc m) c g' = Returns (k, g')"
    by (rule processFunctionDeclaration_again)
next
  assume "processArgument sm n c g = Returns (k, g')"
  then show "processArgument sm (Suc m) c g' = Returns (k, g')"
    by (rule processArgument_again)
next
  assume "processCallExpression sm n c g = Returns (k, g')"
  then show "processCallExpression sm (Suc m) c g' = Returns (k, g')"
    by (rule processCallExpression_again)
next
  assume "processVariableDeclaration sm n c b g = Returns (r, g')"
  then show "processVariableDeclaration sm (Suc m) c b g' = Returns (r, g')"
    by (rule processVariableDeclaration_again)
next
  assume "processDefinition sm n c g = Returns (r, g')"
  then show "processDefinition sm (Suc (Suc m)) c g' = Returns (r, g')"
    by (rule processDefinition_again)
qed

theorem second_processing_changes_nothing_witness:
  "processMethodDeclaration fixtureModel 5 MethodBar newGraph = Returns (0, afterMethod)
   \<and> processMethodDeclaration fixtureModel 0 MethodBar afterMethod = Returns (0, afterMethod)
   \<and> processFunctionDeclaration secondModel 8 FunMain newGraph = Returns (0, afterFunction)
   \<and> processFunctionDeclaration secondModel (Suc 0) FunMain afterFunction = Returns (0, afterFunction)
   \<and> processArgument fixtureModel 5 CallInner newGraph = Returns (0, argumentFirst)
   \<and> processArgument fixtureModel (Suc 0) CallInner argumentFirst = Returns (0, argumentFirst)
   \<and> processCallExpression fixtureModel 5 CallOuter newGraph = Returns (0, afterCall)
   \<and> processCallExpression fixtureModel (Suc 0) CallOuter afterCall = Returns (0, afterCall)
   \<and> processVariableDeclaration fixtureModel 5 VarFoo True newGraph = Returns (Some 0, afterVariable)
   \<and> processVariableDeclaration fixtureModel (Suc 0) VarFoo True afterVariable
       = Returns (Some 0, afterVariable)
   \<and> processDefinition fixtureModel 5 ParamCallback newGraph = Returns (Some 0, afterDefinition)
   \<and> processDefinition fixtureModel (Suc (Suc 0)) ParamCallback afterDefinition
       = Returns (Some 0, afterDefinition)"
proof -
  have "resultNode (processMethodDeclaration fixtureModel 5 MethodBar newGraph) = Some 0"
    by code_simp
  then have a: "processMethodDeclaration fixtureModel 5 MethodBar newGraph = Returns (0, afterMethod)"
    unfolding afterMethod_def by (rule result_eq)
  have "resultNode (processFunctionDeclaration secondModel 8 FunMain newGraph) = Some 0"
    by code_simp
  then have b: "processFunctionDeclaration secondModel 8 FunMain newGraph = Returns (0, afterFunction)"
    unfolding afterFunction_def by (rule result_eq)
  have "resultNode (processArgument fixtureModel 5 CallInner newGraph) = Some 0" by code_simp
  then have c: "processArgument fixtureModel 5 CallInner newGraph = Returns (0, argumentFirst)"
    unfolding argumentFirst_def by (rule result_eq)
  have "resultNode (processCallExpression fixtureModel 5 CallOuter newGraph) = Some 0" by code_simp
  then have d: "processCallExpression fixtureModel 5 CallOuter newGraph = Returns (0, afterCall)"
    unfolding afterCall_def by (rule result_eq)
  have "resultNode (processVariableDeclaration fixtureModel 5 VarFoo True newGraph) = Some (Some 0)"
    by code_simp
  then have e: "processVariableDeclaration fixtureModel 5 VarFoo True newGraph
                  = Returns (Some 0, afterVariable)"
    unfolding afterVariable_def by (rule result_eq)
  have "resultNode (processDefinition fixtureModel 5 ParamCallback newGraph) = Some (Some 0)"
    by code_simp
  then have f: "processDefinition fixtureModel 5 ParamCallback newGraph
                  = Returns (Some 0, afterDefinition)"
    unfolding afterDefinition_def by (rule result_eq)
  note t = second_processing_changes_nothing
  have a': "processMethodDeclaration fixtureModel 0 MethodBar afterMethod = Returns (0, afterMethod)"
    using t [where sm = fixtureModel and n = 5 and c = MethodBar and g = newGraph and k = 0
               and g' = afterMethod and m = 0] a by blast
  have b': "processFunctionDeclaration secondModel (Suc 0) FunMain afterFunction = Returns (0, afterFunction)"
    using t [where sm = secondModel and n = 8 and c = FunMain and g = newGraph and k = 0
               and g' = afterFunction and m = 0] b by blast
  have c': "processArgument fixtureModel (Suc 0) CallInner argumentFirst = Returns (0, argumentFirst)"
    using t [where sm = fixtureModel and n = 5 and c = CallInner and g = newGraph and k = 0
               and g' = argumentFirst and m = 0] c by blast
  have d': "processCallExpression fixtureModel (Suc 0) CallOuter afterCall = Returns (0, afterCall)"
    using t [where sm = fixtureModel and n = 5 and c = CallOuter and g = newGraph and k = 0
               and g' = afterCall and m = 0] d by blast
  have e': "processVariableDeclaration fixtureModel (Suc 0) VarFoo True afterVariable
              = Returns (Some 0, afterVariable)"
    using t [where sm = fixtureModel and n = 5 and c = VarFoo and g = newGraph and r = "Some 0"
               and g' = afterVariable and m = 0 and b = True] e by blast
  have f': "processDefinition fixtureModel (Suc (Suc 0)) ParamCallback afterDefinition
              = Returns (Some 0, afterDefinition)"
    using t [where sm = fixtureModel and n = 5 and c = ParamCallback and g = newGraph
               and r = "Some 0" and g' = afterDefinition and m = 0] f by blast
  show ?thesis using a a' b b' c c' d d' e e' f f' by blast
qed

section \<open>Termination of the traversal\<close>

text \<open>
  The depth bound of the five methods is a device of the model: the code has none. That
  the code comes back is the statement that some depth is enough, and that every larger
  depth gives the same result.

  Every method that expands a construct first asks the registry for it, and expands only
  a construct that was not registered, which it has registered by then. The number of
  constructs that are not registered (\<open>unregistered\<close>) therefore drops by one at every
  expansion, and it never grows. \<^verbatim>\<open>processDefinition\<close> registers nothing itself and
  hands over to a method that does, which costs one more level of depth for each
  expansion: a depth of twice the number of constructs, plus one, is enough.

  One loop is not guarded by the registry: the \<^verbatim>\<open>for ... of\<close> over
  \<^verbatim>\<open>definitionInfo.outgoing\<close> in \<^verbatim>\<open>processCallExpression\<close>. It ends because it appends to
  the array of the call node and reads the array of the definition node, and these are
  two nodes: the definition of a callee is a declaration, not the call expression that
  is being resolved (\<open>no_self_definition\<close>, a property of what \<^verbatim>\<open>getDefinitionNodes()\<close>
  answers).
\<close>

definition unregistered :: "'c CodeFlowGraph \<Rightarrow> nat" where
  "unregistered g = card (- dom (nodeToInfo g))"

definition no_self_definition :: "'c SourceModel \<Rightarrow> bool" where
  "no_self_definition sm \<longleftrightarrow>
     (\<forall>call. call \<notin> set (getDefinitionNodes sm (getExpression sm call)))"

definition total :: "'c SourceModel \<Rightarrow> nat \<Rightarrow> ('c \<Rightarrow> 'c CodeFlowGraph \<Rightarrow> 'a result) \<Rightarrow> bool" where
  "total sm u P \<longleftrightarrow>
     (\<forall>c g. inv False sm g \<longrightarrow> unregistered g \<le> u \<longrightarrow> P c g \<noteq> Diverges)"

lemma totalD: "total sm u P \<Longrightarrow> inv False sm g \<Longrightarrow> unregistered g \<le> u \<Longrightarrow> P c g \<noteq> Diverges"
  by (simp add: total_def)

lemma extends_unregistered:
  assumes fin: "finite (UNIV :: 'c set)" and e: "extends g (g' :: 'c CodeFlowGraph)"
  shows "unregistered g' \<le> unregistered g"
proof -
  have "dom (nodeToInfo g) \<subseteq> dom (nodeToInfo g')"
    using e unfolding extends_def by blast
  then have "- dom (nodeToInfo g') \<subseteq> - dom (nodeToInfo g)" by blast
  moreover have "finite (- dom (nodeToInfo g))" using fin by (rule finite_subset [rotated]) simp
  ultimately show ?thesis unfolding unregistered_def by (rule card_mono [rotated])
qed

lemma addNodeIsNew_unregistered:
  assumes fin: "finite (UNIV :: 'c set)"
    and a: "addNodeIsNew (c :: 'c) ty g = (k, True, g1)"
  shows "Suc (unregistered g1) = unregistered g"
proof -
  have none: "nodeToInfo g c = None" using addNodeIsNew_isNew [OF a] by simp
  then have "nodeToInfo g1 = (nodeToInfo g)(c \<mapsto> NEXT_NODE_ID g)"
    using a by (auto simp: addNodeIsNew_new)
  then have "- dom (nodeToInfo g1) = (- dom (nodeToInfo g)) - {c}" by auto
  moreover have "c \<in> - dom (nodeToInfo g)" using none by auto
  moreover have "finite (- dom (nodeToInfo g))" using fin by (rule finite_subset [rotated]) simp
  ultimately show ?thesis unfolding unregistered_def
    by (metis card_Suc_Diff1)
qed

lemma forEach_single: "forEach body [x] g = body x g"
  by (cases "body x g") simp_all

lemma linkEach_total:
  assumes fin: "finite (UNIV :: 'c set)"
    and good: "good_process False sm (P :: 'c process)" and tot: "total sm u P"
    and i: "inv False sm g" and u: "unregistered g \<le> u"
    and ty: "ty = EArgument \<longrightarrow> nodeTypeOf g src = Some NCall"
  shows "linkEach P src ty xs g \<noteq> Diverges"
  unfolding linkEach_def
proof (rule forEach_terminates [where Q = "\<lambda>h. inv False sm h \<and> extends g h"])
  show "inv False sm g \<and> extends g g" using i by simp
next
  fix x h
  assume Q: "inv False sm h \<and> extends g h"
  have "unregistered h \<le> u" using extends_unregistered [OF fin Q [THEN conjunct2]] u by simp
  then have "P x h \<noteq> Diverges" using tot Q by (simp add: total_def)
  then show "andThen (P x h) (\<lambda>(info, g''). Returns (snd (addEdge src info ty g''))) \<noteq> Diverges"
    by (cases "P x h") auto
next
  fix x h h'
  assume Q: "inv False sm h \<and> extends g h"
    and b: "andThen (P x h) (\<lambda>(info, g''). Returns (snd (addEdge src info ty g''))) = Returns h'"
  have 1: "linkEach P src ty [x] h = Returns h'"
    using b by (simp add: linkEach_def forEach_single)
  have t: "ty = EArgument \<longrightarrow> nodeTypeOf h src = Some NCall"
    using ty Q extends_nodeTypeOf by blast
  have "inv False sm h' \<and> extends h h'"
    using good Q [THEN conjunct1] t _ 1 by (rule linkEach_good) simp
  then show "inv False sm h' \<and> extends g h'"
    using Q extends_trans by blast
qed

lemma referencesLoop_total:
  assumes fin: "finite (UNIV :: 'c set)"
    and good: "good_process False sm (P :: 'c process)" and tot: "total sm u P"
    and i: "inv False sm g" and u: "unregistered g \<le> u"
  shows "referencesLoop sm P src refs g \<noteq> Diverges"
  unfolding referencesLoop_def
proof (rule forEach_terminates [where Q = "\<lambda>h. inv False sm h \<and> extends g h"])
  show "inv False sm g \<and> extends g g" using i by simp
next
  fix x h
  assume Q: "inv False sm h \<and> extends g h"
  have "unregistered h \<le> u" using extends_unregistered [OF fin Q [THEN conjunct2]] u by simp
  then have P: "P y h \<noteq> Diverges" for y using tot Q by (simp add: total_def)
  have A: "andThen (P y h) (\<lambda>(callInfo, g''). Returns (snd (addEdge src callInfo ECall g''))) \<noteq> Diverges" for y
    using P [of y] by (cases "P y h") auto
  show "(case getParent sm x of
               None \<Rightarrow> Throws NoParent
             | Some temp \<Rightarrow>
                 (case getParent sm temp of
                    None \<Rightarrow> Throws NoParent
                  | Some call \<Rightarrow>
                      if getKind sm call = CallExpression \<and> getExpression sm call = temp
                      then andThen (P call h)
                             (\<lambda>(callInfo, g''). Returns (snd (addEdge src callInfo ECall g'')))
                      else Returns h)) \<noteq> Diverges"
    using A by (simp split: option.splits)
next
  fix x h h'
  assume Q: "inv False sm h \<and> extends g h"
    and b: "(case getParent sm x of
               None \<Rightarrow> Throws NoParent
             | Some temp \<Rightarrow>
                 (case getParent sm temp of
                    None \<Rightarrow> Throws NoParent
                  | Some call \<Rightarrow>
                      if getKind sm call = CallExpression \<and> getExpression sm call = temp
                      then andThen (P call h)
                             (\<lambda>(callInfo, g''). Returns (snd (addEdge src callInfo ECall g'')))
                      else Returns h)) = Returns h'"
  have 1: "referencesLoop sm P src [x] h = Returns h'"
    using b by (simp add: referencesLoop_def forEach_single)
  have "inv False sm h' \<and> extends h h'"
    using good Q [THEN conjunct1] 1 by (rule referencesLoop_good)
  then show "inv False sm h' \<and> extends g h'"
    using Q extends_trans by blast
qed

lemma definitionsLoop_total:
  assumes fin: "finite (UNIV :: 'c set)"
    and good: "good_processOpt False sm (D :: 'c processOpt)" and tot: "total sm u D"
    and i: "inv False sm g" and u: "unregistered g \<le> u"
    and src: "nodeToInfo g call = Some src" and other: "call \<notin> set defs"
  shows "definitionsLoop D src defs g \<noteq> Diverges"
  unfolding definitionsLoop_def
proof (rule forEach_terminates [where Q = "\<lambda>h. inv False sm h \<and> extends g h"])
  show "inv False sm g \<and> extends g g" using i by simp
next
  fix x h
  assume x: "x \<in> set defs" and Q: "inv False sm h \<and> extends g h"
  have "unregistered h \<le> u" using extends_unregistered [OF fin Q [THEN conjunct2]] u by simp
  then have D: "D x h \<noteq> Diverges" using tot Q by (simp add: total_def)
  show "andThen (D x h)
              (\<lambda>(definitionInfo, g'').
                 case definitionInfo of
                   None \<Rightarrow> Throws UndefinedOutgoing
                 | Some d \<Rightarrow> splice d src g'') \<noteq> Diverges"
  proof (cases "D x h")
    case Diverges
    then show ?thesis using D by simp
  next
    case (Throws e)
    then show ?thesis by simp
  next
    case (Returns p)
    obtain r h1 where p: "p = (r, h1)" by (cases p)
    show ?thesis
    proof (cases r)
      case None
      then show ?thesis using Returns p by simp
    next
      case (Some d)
      have run: "D x h = Returns (Some d, h1)" using Returns p Some by simp
      have h1: "inv False sm h1" "extends h h1" "nodeToInfo h1 x = Some d"
        using good_processOptD [OF good Q [THEN conjunct1] run] by simp_all
      have "extends g h1" using Q [THEN conjunct2] h1(2) by (rule extends_trans)
      then have s1: "nodeToInfo h1 call = Some src" using src by (rule extends_registered)
      have "x \<noteq> call" using x other by auto
      then have "d \<noteq> src"
        using registry_injective [of h1 x d call] h1(1,3) s1 by (auto simp: inv_def)
      then show ?thesis using Returns p Some by (simp add: splice_other)
    qed
  qed
next
  fix x h h'
  assume Q: "inv False sm h \<and> extends g h"
    and b: "andThen (D x h)
              (\<lambda>(definitionInfo, g'').
                 case definitionInfo of
                   None \<Rightarrow> Throws UndefinedOutgoing
                 | Some d \<Rightarrow> splice d src g'') = Returns h'"
  have 1: "definitionsLoop D src [x] h = Returns h'"
    using b by (simp add: definitionsLoop_def forEach_single)
  have "inv False sm h' \<and> extends h h'"
    using good Q [THEN conjunct1] 1 by (rule definitionsLoop_good)
  then show "inv False sm h' \<and> extends g h'"
    using Q extends_trans by blast
qed


lemma andThen_total:
  "m \<noteq> Diverges \<Longrightarrow> (\<And>x. m = Returns x \<Longrightarrow> f x \<noteq> Diverges) \<Longrightarrow> andThen m f \<noteq> Diverges"
  by (cases m) auto

lemma registered_loop_total:
  assumes fin: "finite (UNIV :: 'c set)"
    and good: "good_process False sm (P :: 'c process)"
    and tot: "0 < u \<Longrightarrow> total sm (u - 1) P"
    and i: "inv False sm g" and u: "unregistered g \<le> u"
    and a: "addNodeIsNew c ty g = (src, True, g1)"
  shows "linkEach P src EChild calls g1 \<noteq> Diverges"
proof -
  have s: "Suc (unregistered g1) = unregistered g" using fin a by (rule addNodeIsNew_unregistered)
  then have pos: "0 < u" and u1: "unregistered g1 \<le> u - 1" using u by simp_all
  have i1: "inv False sm g1" using i a by (rule addNodeIsNew_inv) simp
  show ?thesis
    using fin good tot [OF pos] i1 u1 by (rule linkEach_total) simp
qed

lemma processArgument_body_total:
  assumes fin: "finite (UNIV :: 'c set)"
    and good: "good_process False sm (P :: 'c process)"
    and tot: "0 < u \<Longrightarrow> total sm (u - 1) P"
  shows "total sm u (processArgument_body sm P)"
  unfolding total_def
proof (intro allI impI)
  fix c g assume i: "inv False sm g" and u: "unregistered g \<le> u"
  obtain src isNew g1 where a: "addNodeIsNew c NArgument g = (src, isNew, g1)"
    using prod_cases3 by blast
  show "processArgument_body sm P c g \<noteq> Diverges"
  proof (cases isNew)
    case False
    then show ?thesis using a by (simp add: processArgument_body_def)
  next
    case True
    then have a': "addNodeIsNew c NArgument g = (src, True, g1)" using a by simp
    have "linkEach P src EChild (getDescendantCalls sm c) g1 \<noteq> Diverges"
      using fin good tot i u a' by (rule registered_loop_total)
    then show ?thesis using a True by (simp add: processArgument_body_def andThen_total)
  qed
qed

lemma processFunctionDeclaration_body_total:
  assumes fin: "finite (UNIV :: 'c set)"
    and good: "good_process False sm (P :: 'c process)"
    and tot: "0 < u \<Longrightarrow> total sm (u - 1) P"
  shows "total sm u (processFunctionDeclaration_body sm P)"
  unfolding total_def
proof (intro allI impI)
  fix c g assume i: "inv False sm g" and u: "unregistered g \<le> u"
  obtain src isNew g1 where a: "addNodeIsNew c NFunction g = (src, isNew, g1)"
    using prod_cases3 by blast
  show "processFunctionDeclaration_body sm P c g \<noteq> Diverges"
  proof (cases isNew)
    case False
    then show ?thesis using a by (simp add: processFunctionDeclaration_body_def)
  next
    case True
    then have a': "addNodeIsNew c NFunction g = (src, True, g1)" using a by simp
    have "linkEach P src EChild calls g1 \<noteq> Diverges" for calls
      using fin good tot i u a' by (rule registered_loop_total)
    then show ?thesis using a True
      by (simp add: processFunctionDeclaration_body_def andThen_total split: option.splits)
  qed
qed

lemma processMethodDeclaration_total:
  assumes fin: "finite (UNIV :: 'c set)"
    and good: "good_process False sm (processCallExpression sm n :: 'c process)"
    and tot: "0 < u \<Longrightarrow> total sm (u - 1) (processCallExpression sm n)"
  shows "total sm u (processMethodDeclaration sm n)"
  unfolding total_def
proof (intro allI impI)
  fix c g assume i: "inv False sm g" and u: "unregistered g \<le> u"
  obtain src isNew g1 where a: "addNodeIsNew c NFunction g = (src, isNew, g1)"
    using prod_cases3 by blast
  show "processMethodDeclaration sm n c g \<noteq> Diverges"
  proof (cases isNew)
    case False
    then show ?thesis using a by (simp add: processMethodDeclaration_def)
  next
    case True
    then have a': "addNodeIsNew c NFunction g = (src, True, g1)" using a by simp
    have "linkEach (processCallExpression sm n) src EChild calls g1 \<noteq> Diverges" for calls
      using fin good tot i u a' by (rule registered_loop_total)
    then show ?thesis using a True
      by (simp add: processMethodDeclaration_def andThen_total split: option.splits)
  qed
qed

lemma processVariableDeclaration_body_total:
  assumes fin: "finite (UNIV :: 'c set)"
    and good: "good_process False sm (P :: 'c process)"
    and tot: "0 < u \<Longrightarrow> total sm (u - 1) P"
  shows "total sm u (\<lambda>c. processVariableDeclaration_body sm P c b)"
  unfolding total_def
proof (intro allI impI)
  fix c g assume i: "inv False sm g" and u: "unregistered g \<le> u"
  show "processVariableDeclaration_body sm P c b g \<noteq> Diverges"
  proof (cases "getInitializer sm c")
    case None
    then show ?thesis by (simp add: processVariableDeclaration_body_def)
  next
    case (Some init)
    let ?functionLike = "getKind sm init = ArrowFunction \<or> getKind sm init = FunctionExpression"
    let ?ty = "if ?functionLike then NFunction else NObject"
    obtain src isNew g1 where a: "addNodeIsNew c ?ty g = (src, isNew, g1)"
      using prod_cases3 by blast
    show ?thesis
    proof (cases isNew)
      case False
      then show ?thesis using a Some by (simp add: processVariableDeclaration_body_def Let_def)
    next
      case True
      then have a': "addNodeIsNew c ?ty g = (src, True, g1)" using a by simp
      have l: "linkEach P src EChild calls g1 \<noteq> Diverges" for calls
        using fin good tot i u a' by (rule registered_loop_total)
      have s: "Suc (unregistered g1) = unregistered g" using fin a' by (rule addNodeIsNew_unregistered)
      then have pos: "0 < u" and u1: "unregistered g1 \<le> u - 1" using u by simp_all
      have i1: "inv False sm g1" using i a' by (rule addNodeIsNew_inv) simp
      have r: "referencesLoop sm P src (concat (findReferences sm c)) g1 \<noteq> Diverges"
        using fin good tot [OF pos] i1 u1 by (rule referencesLoop_total)
      show ?thesis using a True Some l r
        by (simp add: processVariableDeclaration_body_def Let_def andThen_total split: option.splits)
    qed
  qed
qed

lemma processCallExpression_body_total:
  assumes fin: "finite (UNIV :: 'c set)" and nsd: "no_self_definition sm"
    and goodD: "good_processOpt False sm (D :: 'c processOpt)"
    and goodA: "good_process False sm (A :: 'c process)"
    and totD: "0 < u \<Longrightarrow> total sm (u - 1) D"
    and totA: "0 < u \<Longrightarrow> total sm (u - 1) A"
  shows "total sm u (processCallExpression_body sm D A)"
  unfolding total_def
proof (intro allI impI)
  fix c g assume i: "inv False sm g" and u: "unregistered g \<le> u"
  obtain src isNew g1 where a: "addNodeIsNew c NCall g = (src, isNew, g1)"
    using prod_cases3 by blast
  show "processCallExpression_body sm D A c g \<noteq> Diverges"
  proof (cases isNew)
    case False
    then show ?thesis using a by (simp add: processCallExpression_body_def)
  next
    case True
    then have a': "addNodeIsNew c NCall g = (src, True, g1)" using a by simp
    have s: "Suc (unregistered g1) = unregistered g" using fin a' by (rule addNodeIsNew_unregistered)
    then have pos: "0 < u" and u1: "unregistered g1 \<le> u - 1" using u by simp_all
    have i1: "inv False sm g1" using i a' by (rule addNodeIsNew_inv) simp
    have r1: "nodeToInfo g1 c = Some src" using a' by (rule addNodeIsNew_registered)
    have t1: "nodeTypeOf g1 src = Some NCall" using addNodeIsNew_type [OF a'] by simp
    let ?defs = "if getKind sm (getExpression sm c) = Identifier
                 then definitionsLoop D src (getDefinitionNodes sm (getExpression sm c)) g1
                 else Returns g1"
    have other: "c \<notin> set (getDefinitionNodes sm (getExpression sm c))"
      using nsd by (simp add: no_self_definition_def)
    have d: "?defs \<noteq> Diverges"
      using definitionsLoop_total [OF fin goodD totD [OF pos] i1 u1 r1 other] by simp
    have args: "linkEach A src EArgument (getArguments sm c) g2 \<noteq> Diverges"
      if g2: "?defs = Returns g2" for g2
    proof -
      have 2: "inv False sm g2 \<and> extends g1 g2"
      proof (cases "getKind sm (getExpression sm c) = Identifier")
        case True
        then have "definitionsLoop D src (getDefinitionNodes sm (getExpression sm c)) g1 = Returns g2"
          using g2 by simp
        with goodD i1 show ?thesis by (rule definitionsLoop_good)
      next
        case False
        then show ?thesis using g2 i1 by simp
      qed
      have u2: "unregistered g2 \<le> u - 1"
        using extends_unregistered [OF fin 2 [THEN conjunct2]] u1 by simp
      have t2: "EArgument = EArgument \<longrightarrow> nodeTypeOf g2 src = Some NCall"
        using 2 t1 extends_nodeTypeOf by blast
      show ?thesis
        using fin goodA totA [OF pos] 2 [THEN conjunct1] u2 t2 by (rule linkEach_total)
    qed
    have "andThen ?defs
            (\<lambda>g2. andThen (linkEach A src EArgument (getArguments sm c) g2)
                     (\<lambda>g3. Returns (src, g3))) \<noteq> Diverges"
    proof (rule andThen_total [OF d])
      fix g2 assume "?defs = Returns g2"
      then have "linkEach A src EArgument (getArguments sm c) g2 \<noteq> Diverges" by (rule args)
      then show "andThen (linkEach A src EArgument (getArguments sm c) g2)
                   (\<lambda>g3. Returns (src, g3)) \<noteq> Diverges"
        by (simp add: andThen_total)
    qed
    then show ?thesis using a True by (simp add: processCallExpression_body_def)
  qed
qed

lemma processDefinition_body_total:
  assumes totV: "total sm u (\<lambda>c. V c True)" and totF: "total sm u (F :: 'c process)"
  shows "total sm u (processDefinition_body sm V F)"
  unfolding total_def
proof (intro allI impI)
  fix c g assume i: "inv False sm g" and u: "unregistered g \<le> u"
  have v: "V c True g \<noteq> Diverges" using totV i u by (simp add: total_def)
  have f: "F c g \<noteq> Diverges" using totF i u by (simp add: total_def)
  show "processDefinition_body sm V F c g \<noteq> Diverges"
    using v f by (auto simp: processDefinition_body_def andThen_total addNode_def split: prod.splits)
qed


lemma process_total:
  assumes fin: "finite (UNIV :: 'c set)" and nsd: "no_self_definition (sm :: 'c SourceModel)"
  shows "(2 * u + 1 \<le> n \<longrightarrow>
            (\<forall>b. total sm u (\<lambda>c. processVariableDeclaration sm n c b))
            \<and> total sm u (processCallExpression sm n)
            \<and> total sm u (processFunctionDeclaration sm n)
            \<and> total sm u (processArgument sm n))
         \<and> (2 * u + 2 \<le> n \<longrightarrow> total sm u (processDefinition sm n))"
proof (induction n arbitrary: u)
  case 0
  show ?case by simp
next
  case (Suc n)
  have good: "good_processVar False sm (processVariableDeclaration sm n)"
    "good_process False sm (processCallExpression sm n)"
    "good_processOpt False sm (processDefinition sm n)"
    "good_process False sm (processFunctionDeclaration sm n)"
    "good_process False sm (processArgument sm n)"
    using process_good [of False sm n] by simp_all
  have first: "(\<forall>b. total sm u (\<lambda>c. processVariableDeclaration sm (Suc n) c b))
            \<and> total sm u (processCallExpression sm (Suc n))
            \<and> total sm u (processFunctionDeclaration sm (Suc n))
            \<and> total sm u (processArgument sm (Suc n))"
    if le: "2 * u + 1 \<le> Suc n"
  proof -
    have C: "total sm (u - 1) (processCallExpression sm n)"
      and A: "total sm (u - 1) (processArgument sm n)"
      and D: "total sm (u - 1) (processDefinition sm n)" if "0 < u"
      using Suc.IH [of "u - 1"] le that by simp_all
    have v: "total sm u (\<lambda>c. processVariableDeclaration_body sm (processCallExpression sm n) c b)" for b
      using fin good(2) C by (rule processVariableDeclaration_body_total)
    have c: "total sm u (processCallExpression_body sm (processDefinition sm n) (processArgument sm n))"
      using fin nsd good(3) good(5) D A by (rule processCallExpression_body_total)
    have f: "total sm u (processFunctionDeclaration_body sm (processCallExpression sm n))"
      using fin good(2) C by (rule processFunctionDeclaration_body_total)
    have a: "total sm u (processArgument_body sm (processCallExpression sm n))"
      using fin good(2) C by (rule processArgument_body_total)
    show ?thesis using v c f a by (simp add: total_def)
  qed
  have second: "total sm u (processDefinition sm (Suc n))" if le: "2 * u + 2 \<le> Suc n"
  proof -
    have V: "total sm u (\<lambda>c. processVariableDeclaration sm n c True)"
      and F: "total sm u (processFunctionDeclaration sm n)"
      using Suc.IH [of u] le by simp_all
    have "total sm u (processDefinition_body sm (processVariableDeclaration sm n)
                        (processFunctionDeclaration sm n))"
      using V F by (rule processDefinition_body_total)
    then show ?thesis by (simp add: total_def)
  qed
  show ?case using first second by blast
qed

lemma unregistered_le:
  assumes "finite (UNIV :: 'c set)"
  shows "unregistered (g :: 'c CodeFlowGraph) \<le> card (UNIV :: 'c set)"
  unfolding unregistered_def using assms by (intro card_mono) simp_all

lemma initialize_total:
  assumes fin: "finite (UNIV :: 'c set)" and nsd: "no_self_definition (sm :: 'c SourceModel)"
    and n: "2 * card (UNIV :: 'c set) + 1 \<le> n" and i: "inv False sm g"
  shows "initialize sm n g \<noteq> Diverges"
proof -
  let ?U = "card (UNIV :: 'c set)"
  note T = process_total [OF fin nsd, of ?U n]
  have V: "processVariableDeclaration sm n c b h \<noteq> Diverges" if "inv False sm h" for c b h
    using T n that unregistered_le [OF fin, of h] by (simp add: total_def)
  have F: "processFunctionDeclaration sm n c h \<noteq> Diverges" if "inv False sm h" for c h
    using T n that unregistered_le [OF fin, of h] by (simp add: total_def)
  have C: "total sm (?U - 1) (processCallExpression sm n)"
    using process_total [OF fin nsd, of "?U - 1" n] n by simp
  have goodC: "good_process False sm (processCallExpression sm n)"
    using process_good [of False sm n] by simp
  have "total sm ?U (processMethodDeclaration sm n)"
    using fin goodC C by (rule processMethodDeclaration_total)
  then have M: "processMethodDeclaration sm n c h \<noteq> Diverges" if "inv False sm h" for c h
    using that unregistered_le [OF fin, of h] by (simp add: total_def)
  have vars: "processVariables sm n f h \<noteq> Diverges" if ih: "inv False sm h" for f h
    unfolding processVariables_def
  proof (rule forEach_terminates [where Q = "inv False sm", OF ih])
    fix v k assume ik: "inv False sm k"
    have "forEach (\<lambda>declaration g''.
                     andThen (processVariableDeclaration sm n declaration True g'')
                       (\<lambda>(info, g3). Returns g3)) ds k \<noteq> Diverges" for ds
    proof (rule forEach_terminates [where Q = "inv False sm", OF ik])
      fix d j assume "inv False sm j"
      then have "processVariableDeclaration sm n d True j \<noteq> Diverges" by (rule V)
      then show "andThen (processVariableDeclaration sm n d True j) (\<lambda>(info, g3). Returns g3) \<noteq> Diverges"
        by (cases "processVariableDeclaration sm n d True j") auto
    next
      fix d j j' assume ij: "inv False sm j"
        and b: "andThen (processVariableDeclaration sm n d True j) (\<lambda>(info, g3). Returns g3) = Returns j'"
      have "\<exists>info. processVariableDeclaration sm n d True j = Returns (info, j')"
        using b by (auto simp: andThen_Returns_iff)
      then obtain info where 1: "processVariableDeclaration sm n d True j = Returns (info, j')" by blast
      have G: "good_processVar False sm (processVariableDeclaration sm n)"
        using process_good [of False sm n] by simp
      show "inv False sm j'" using good_processVarD(1) [OF G ij _ 1] by simp
    qed
    then show "(case getVariableStatement sm v of
                  None \<Rightarrow> Throws NoVariableStatement
                | Some statement \<Rightarrow>
                    forEach (\<lambda>declaration g''.
                               andThen (processVariableDeclaration sm n declaration True g'')
                                 (\<lambda>(info, g3). Returns g3))
                            (getDeclarations sm statement) k) \<noteq> Diverges"
      by (simp split: option.splits)
  next
    fix v k k' assume ik: "inv False sm k"
      and b: "(case getVariableStatement sm v of
                  None \<Rightarrow> Throws NoVariableStatement
                | Some statement \<Rightarrow>
                    forEach (\<lambda>declaration g''.
                               andThen (processVariableDeclaration sm n declaration True g'')
                                 (\<lambda>(info, g3). Returns g3))
                            (getDeclarations sm statement) k) = Returns k'"
    show "inv False sm k'"
    proof (cases "getVariableStatement sm v")
      case None
      then show ?thesis using b by simp
    next
      case (Some statement)
      then have inner: "forEach (\<lambda>declaration g''.
                               andThen (processVariableDeclaration sm n declaration True g'')
                                 (\<lambda>(info, g3). Returns g3))
                            (getDeclarations sm statement) k = Returns k'" using b by simp
      show ?thesis
      proof (rule forEach_invariant [OF inner, where Q = "inv False sm", OF ik])
        fix d j j' assume ij: "inv False sm j"
          and b': "andThen (processVariableDeclaration sm n d True j) (\<lambda>(info, g3). Returns g3) = Returns j'"
        have "\<exists>info. processVariableDeclaration sm n d True j = Returns (info, j')"
          using b' by (auto simp: andThen_Returns_iff)
        then obtain info where 1: "processVariableDeclaration sm n d True j = Returns (info, j')" by blast
        have G: "good_processVar False sm (processVariableDeclaration sm n)"
          using process_good [of False sm n] by simp
        show "inv False sm j'" using good_processVarD(1) [OF G ij _ 1] by simp
      qed
    qed
  qed
  have funs: "processFunctions sm n f h \<noteq> Diverges" if ih: "inv False sm h" for f h
    unfolding processFunctions_def
  proof (rule forEach_terminates [where Q = "inv False sm", OF ih])
    fix x k assume "inv False sm k"
    then have "processFunctionDeclaration sm n x k \<noteq> Diverges" by (rule F)
    then show "andThen (processFunctionDeclaration sm n x k) (\<lambda>(info, g''). Returns g'') \<noteq> Diverges"
      by (cases "processFunctionDeclaration sm n x k") auto
  next
    fix x k k' assume ik: "inv False sm k"
      and b: "andThen (processFunctionDeclaration sm n x k) (\<lambda>(info, g''). Returns g'') = Returns k'"
    have "\<exists>info. processFunctionDeclaration sm n x k = Returns (info, k')"
      using b by (auto simp: andThen_Returns_iff)
    then obtain info where 1: "processFunctionDeclaration sm n x k = Returns (info, k')" by blast
    have G: "good_process False sm (processFunctionDeclaration sm n)"
      using process_good [of False sm n] by simp
    show "inv False sm k'" using good_processD(1) [OF G ik _ 1] by simp
  qed
  have cls: "processClass sm n x h \<noteq> Diverges" if ih: "inv False sm h" for x h
    unfolding processClass_def
  proof (rule forEach_terminates [where Q = "inv False sm", OF ih])
    fix m k assume "inv False sm k"
    then have "processMethodDeclaration sm n m k \<noteq> Diverges" by (rule M)
    then show "andThen (processMethodDeclaration sm n m k) (\<lambda>(info, g''). Returns g'') \<noteq> Diverges"
      by (cases "processMethodDeclaration sm n m k") auto
  next
    fix m k k' assume ik: "inv False sm k"
      and b: "andThen (processMethodDeclaration sm n m k) (\<lambda>(info, g''). Returns g'') = Returns k'"
    have "\<exists>info. processMethodDeclaration sm n m k = Returns (info, k')"
      using b by (auto simp: andThen_Returns_iff)
    then obtain info where 1: "processMethodDeclaration sm n m k = Returns (info, k')" by blast
    show "inv False sm k'"
      using processMethodDeclaration_good [OF _ goodC _ ik 1] by simp
  qed
  have clss: "processClasses sm n f h \<noteq> Diverges" if ih: "inv False sm h" for f h
    unfolding processClasses_def
  proof (rule forEach_terminates [where Q = "inv False sm", OF ih])
    fix x k assume "inv False sm k"
    then show "processClass sm n x k \<noteq> Diverges" by (rule cls)
  next
    fix x k k' assume "inv False sm k" and "processClass sm n x k = Returns k'"
    then show "inv False sm k'" using processClass_good [of False sm k n x k'] by simp
  qed
  show ?thesis
    unfolding initialize_def
  proof (rule forEach_terminates [where Q = "inv False sm", OF i])
    fix f h assume ih: "inv False sm h"
    show "andThen (processVariables sm n f h)
            (\<lambda>g1. andThen (processFunctions sm n f g1) (\<lambda>g2. processClasses sm n f g2)) \<noteq> Diverges"
    proof (rule andThen_total [OF vars [OF ih]])
      fix h1 assume "processVariables sm n f h = Returns h1"
      then have i1: "inv False sm h1" using processVariables_good [of False sm h n f h1] ih by simp
      show "andThen (processFunctions sm n f h1) (\<lambda>g2. processClasses sm n f g2) \<noteq> Diverges"
      proof (rule andThen_total [OF funs [OF i1]])
        fix h2 assume "processFunctions sm n f h1 = Returns h2"
        then have "inv False sm h2" using processFunctions_good [of False sm h1 n f h2] i1 by simp
        then show "processClasses sm n f h2 \<noteq> Diverges" by (rule clss)
      qed
    qed
  next
    fix f h h' assume ih: "inv False sm h"
      and b: "andThen (processVariables sm n f h)
            (\<lambda>g1. andThen (processFunctions sm n f g1) (\<lambda>g2. processClasses sm n f g2)) = Returns h'"
    have "\<exists>h1 h2. processVariables sm n f h = Returns h1 \<and> processFunctions sm n f h1 = Returns h2
          \<and> processClasses sm n f h2 = Returns h'"
      using b by (auto simp: andThen_Returns_iff)
    then obtain h1 h2 where 1: "processVariables sm n f h = Returns h1"
      and 2: "processFunctions sm n f h1 = Returns h2"
      and 3: "processClasses sm n f h2 = Returns h'" by blast
    have i1: "inv False sm h1" using processVariables_good [of False sm h n f h1] ih 1 by simp
    have i2: "inv False sm h2" using processFunctions_good [of False sm h1 n f h2] i1 2 by simp
    show "inv False sm h'" using processClasses_good [of False sm h2 n f h'] i2 3 by simp
  qed
qed

subsection \<open>A larger depth bound changes nothing\<close>

text \<open>
  \<open>below P P'\<close>: wherever \<open>P\<close> comes back, \<open>P'\<close> gives the same result. Each method at
  depth \<open>n\<close> is below itself at every larger depth.
\<close>

definition below :: "('c \<Rightarrow> 's \<Rightarrow> 'a result) \<Rightarrow> ('c \<Rightarrow> 's \<Rightarrow> 'a result) \<Rightarrow> bool" where
  "below P P' \<longleftrightarrow> (\<forall>c g. P c g \<noteq> Diverges \<longrightarrow> P' c g = P c g)"

lemma belowD: "below P P' \<Longrightarrow> P c g \<noteq> Diverges \<Longrightarrow> P' c g = P c g"
  by (simp add: below_def)

lemma andThen_mono:
  assumes "andThen m f \<noteq> Diverges"
    and "m \<noteq> Diverges \<Longrightarrow> m' = m"
    and "\<And>x. m = Returns x \<Longrightarrow> f x \<noteq> Diverges \<Longrightarrow> f' x = f x"
  shows "andThen m' f' = andThen m f"
  using assms by (cases m) auto

lemma forEach_mono:
  assumes "\<And>x h. x \<in> set xs \<Longrightarrow> body x h \<noteq> Diverges \<Longrightarrow> body' x h = body x h"
    and "forEach body xs g \<noteq> Diverges"
  shows "forEach body' xs g = forEach body xs g"
  using assms
proof (induction xs arbitrary: g)
  case Nil
  then show ?case by simp
next
  case (Cons x xs)
  have nd: "andThen (body x g) (forEach body xs) \<noteq> Diverges" using Cons.prems(2) by simp
  have "andThen (body' x g) (forEach body' xs) = andThen (body x g) (forEach body xs)"
  proof (rule andThen_mono [OF nd])
    assume "body x g \<noteq> Diverges"
    then show "body' x g = body x g" using Cons.prems(1) [of x g] by simp
  next
    fix h assume "body x g = Returns h" and d: "forEach body xs h \<noteq> Diverges"
    show "forEach body' xs h = forEach body xs h"
    proof (rule Cons.IH [OF _ d])
      fix y k assume "y \<in> set xs" "body y k \<noteq> Diverges"
      then show "body' y k = body y k" using Cons.prems(1) [of y k] by simp
    qed
  qed
  then show ?case by simp
qed

lemma linkEach_mono:
  assumes "below P P'" and "linkEach P src ty xs g \<noteq> Diverges"
  shows "linkEach P' src ty xs g = linkEach P src ty xs g"
  unfolding linkEach_def
proof (rule forEach_mono [OF _ assms(2) [unfolded linkEach_def]])
  fix x h
  assume d: "andThen (P x h) (\<lambda>(info, g''). Returns (snd (addEdge src info ty g''))) \<noteq> Diverges"
  then have "P x h \<noteq> Diverges" by (cases "P x h") auto
  then have "P' x h = P x h" using assms(1) by (simp add: below_def)
  then show "andThen (P' x h) (\<lambda>(info, g''). Returns (snd (addEdge src info ty g'')))
             = andThen (P x h) (\<lambda>(info, g''). Returns (snd (addEdge src info ty g'')))"
    by simp
qed

lemma referencesLoop_mono:
  assumes "below P P'" and "referencesLoop sm P src refs g \<noteq> Diverges"
  shows "referencesLoop sm P' src refs g = referencesLoop sm P src refs g"
  unfolding referencesLoop_def
proof (rule forEach_mono [OF _ assms(2) [unfolded referencesLoop_def]])
  fix x h
  assume d: "(case getParent sm x of
               None \<Rightarrow> Throws NoParent
             | Some temp \<Rightarrow>
                 (case getParent sm temp of
                    None \<Rightarrow> Throws NoParent
                  | Some call \<Rightarrow>
                      if getKind sm call = CallExpression \<and> getExpression sm call = temp
                      then andThen (P call h)
                             (\<lambda>(callInfo, g''). Returns (snd (addEdge src callInfo ECall g'')))
                      else Returns h)) \<noteq> Diverges"
  have eq: "andThen (P' call h) (\<lambda>(callInfo, g''). Returns (snd (addEdge src callInfo ECall g'')))
          = andThen (P call h) (\<lambda>(callInfo, g''). Returns (snd (addEdge src callInfo ECall g'')))"
    if "andThen (P call h) (\<lambda>(callInfo, g''). Returns (snd (addEdge src callInfo ECall g''))) \<noteq> Diverges"
    for call
  proof -
    have "P call h \<noteq> Diverges" using that by (cases "P call h") auto
    then have "P' call h = P call h" using assms(1) by (simp add: below_def)
    then show ?thesis by simp
  qed
  show "(case getParent sm x of
               None \<Rightarrow> Throws NoParent
             | Some temp \<Rightarrow>
                 (case getParent sm temp of
                    None \<Rightarrow> Throws NoParent
                  | Some call \<Rightarrow>
                      if getKind sm call = CallExpression \<and> getExpression sm call = temp
                      then andThen (P' call h)
                             (\<lambda>(callInfo, g''). Returns (snd (addEdge src callInfo ECall g'')))
                      else Returns h))
        = (case getParent sm x of
               None \<Rightarrow> Throws NoParent
             | Some temp \<Rightarrow>
                 (case getParent sm temp of
                    None \<Rightarrow> Throws NoParent
                  | Some call \<Rightarrow>
                      if getKind sm call = CallExpression \<and> getExpression sm call = temp
                      then andThen (P call h)
                             (\<lambda>(callInfo, g''). Returns (snd (addEdge src callInfo ECall g'')))
                      else Returns h))"
    using d eq by (auto split: option.splits)
qed

lemma definitionsLoop_mono:
  assumes "below D D'" and "definitionsLoop D src defs g \<noteq> Diverges"
  shows "definitionsLoop D' src defs g = definitionsLoop D src defs g"
  unfolding definitionsLoop_def
proof (rule forEach_mono [OF _ assms(2) [unfolded definitionsLoop_def]])
  fix x h
  assume d: "andThen (D x h)
              (\<lambda>(definitionInfo, g'').
                 case definitionInfo of
                   None \<Rightarrow> Throws UndefinedOutgoing
                 | Some d \<Rightarrow> splice d src g'') \<noteq> Diverges"
  then have "D x h \<noteq> Diverges" by (cases "D x h") auto
  then have "D' x h = D x h" using assms(1) by (simp add: below_def)
  then show "andThen (D' x h)
              (\<lambda>(definitionInfo, g'').
                 case definitionInfo of
                   None \<Rightarrow> Throws UndefinedOutgoing
                 | Some d \<Rightarrow> splice d src g'')
           = andThen (D x h)
              (\<lambda>(definitionInfo, g'').
                 case definitionInfo of
                   None \<Rightarrow> Throws UndefinedOutgoing
                 | Some d \<Rightarrow> splice d src g'')"
    by simp
qed

lemma andThen_first_total: "andThen m f \<noteq> Diverges \<Longrightarrow> m \<noteq> Diverges"
  by (cases m) auto

lemma processArgument_body_mono:
  assumes "below P P'"
  shows "below (processArgument_body sm P) (processArgument_body sm P')"
  unfolding below_def
proof (intro allI impI)
  fix c g assume d: "processArgument_body sm P c g \<noteq> Diverges"
  obtain src isNew g1 where a: "addNodeIsNew c NArgument g = (src, isNew, g1)"
    using prod_cases3 by blast
  show "processArgument_body sm P' c g = processArgument_body sm P c g"
  proof (cases isNew)
    case False
    then show ?thesis using a by (simp add: processArgument_body_def)
  next
    case True
    then have "linkEach P src EChild (getDescendantCalls sm c) g1 \<noteq> Diverges"
      using d a by (auto simp: processArgument_body_def dest: andThen_first_total)
    then have "linkEach P' src EChild (getDescendantCalls sm c) g1
               = linkEach P src EChild (getDescendantCalls sm c) g1"
      using assms by (intro linkEach_mono)
    then show ?thesis using a True by (simp add: processArgument_body_def)
  qed
qed

lemma processFunctionDeclaration_body_mono:
  assumes "below P P'"
  shows "below (processFunctionDeclaration_body sm P) (processFunctionDeclaration_body sm P')"
  unfolding below_def
proof (intro allI impI)
  fix c g assume d: "processFunctionDeclaration_body sm P c g \<noteq> Diverges"
  obtain src isNew g1 where a: "addNodeIsNew c NFunction g = (src, isNew, g1)"
    using prod_cases3 by blast
  show "processFunctionDeclaration_body sm P' c g = processFunctionDeclaration_body sm P c g"
  proof (cases isNew)
    case False
    then show ?thesis using a by (simp add: processFunctionDeclaration_body_def)
  next
    case True
    show ?thesis
    proof (cases "getBody sm c")
      case None
      then show ?thesis using a True by (simp add: processFunctionDeclaration_body_def)
    next
      case (Some body)
      then have "linkEach P src EChild (getDescendantCalls sm body) g1 \<noteq> Diverges"
        using d a True by (auto simp: processFunctionDeclaration_body_def dest: andThen_first_total)
      then have "linkEach P' src EChild (getDescendantCalls sm body) g1
                 = linkEach P src EChild (getDescendantCalls sm body) g1"
        using assms by (intro linkEach_mono)
      then show ?thesis using a True Some by (simp add: processFunctionDeclaration_body_def)
    qed
  qed
qed

lemma processVariableDeclaration_body_mono:
  assumes "below P P'"
  shows "below (\<lambda>c. processVariableDeclaration_body sm P c b)
               (\<lambda>c. processVariableDeclaration_body sm P' c b)"
  unfolding below_def
proof (intro allI impI)
  fix c g assume d: "processVariableDeclaration_body sm P c b g \<noteq> Diverges"
  show "processVariableDeclaration_body sm P' c b g = processVariableDeclaration_body sm P c b g"
  proof (cases "getInitializer sm c")
    case None
    then show ?thesis by (simp add: processVariableDeclaration_body_def)
  next
    case (Some init)
    let ?functionLike = "getKind sm init = ArrowFunction \<or> getKind sm init = FunctionExpression"
    let ?ty = "if ?functionLike then NFunction else NObject"
    obtain src isNew g1 where a: "addNodeIsNew c ?ty g = (src, isNew, g1)"
      using prod_cases3 by blast
    show ?thesis
    proof (cases "isNew \<and> \<not> (b \<and> \<not> isExported sm c)")
      case False
      then show ?thesis using a Some by (auto simp: processVariableDeclaration_body_def Let_def)
    next
      case True
      show ?thesis
      proof (cases ?functionLike)
        case fl: True
        show ?thesis
        proof (cases "getBody sm init")
          case None
          then show ?thesis using a Some True fl
            by (auto simp: processVariableDeclaration_body_def Let_def)
        next
          case body: (Some body)
          have "linkEach P src EChild (getDescendantCalls sm body) g1 \<noteq> Diverges"
            using d a Some True fl body
            by (auto simp: processVariableDeclaration_body_def Let_def dest: andThen_first_total)
          then have "linkEach P' src EChild (getDescendantCalls sm body) g1
                     = linkEach P src EChild (getDescendantCalls sm body) g1"
            using assms by (intro linkEach_mono)
          then show ?thesis using a Some True fl body
            by (auto simp: processVariableDeclaration_body_def Let_def)
        qed
      next
        case nfl: False
        have "referencesLoop sm P src (concat (findReferences sm c)) g1 \<noteq> Diverges"
          using d a Some True nfl
          by (auto simp: processVariableDeclaration_body_def Let_def dest: andThen_first_total)
        then have "referencesLoop sm P' src (concat (findReferences sm c)) g1
                   = referencesLoop sm P src (concat (findReferences sm c)) g1"
          using assms by (intro referencesLoop_mono)
        then show ?thesis using a Some True nfl
          by (auto simp: processVariableDeclaration_body_def Let_def)
      qed
    qed
  qed
qed

lemma processCallExpression_body_mono:
  assumes D: "below D D'" and A: "below A A'"
  shows "below (processCallExpression_body sm D A) (processCallExpression_body sm D' A')"
  unfolding below_def
proof (intro allI impI)
  fix c g assume d: "processCallExpression_body sm D A c g \<noteq> Diverges"
  obtain src isNew g1 where a: "addNodeIsNew c NCall g = (src, isNew, g1)"
    using prod_cases3 by blast
  show "processCallExpression_body sm D' A' c g = processCallExpression_body sm D A c g"
  proof (cases isNew)
    case False
    then show ?thesis using a by (simp add: processCallExpression_body_def)
  next
    case True
    let ?defs = "\<lambda>D. if getKind sm (getExpression sm c) = Identifier
                 then definitionsLoop D src (getDefinitionNodes sm (getExpression sm c)) g1
                 else Returns g1"
    let ?rest = "\<lambda>A g2. andThen (linkEach A src EArgument (getArguments sm c) g2)
                          (\<lambda>g3. Returns (src, g3))"
    have nd: "andThen (?defs D) (?rest A) \<noteq> Diverges"
      using d a True by (simp add: processCallExpression_body_def)
    have "andThen (?defs D') (?rest A') = andThen (?defs D) (?rest A)"
    proof (rule andThen_mono [OF nd])
      assume "?defs D \<noteq> Diverges"
      then show "?defs D' = ?defs D" using D by (auto intro: definitionsLoop_mono)
    next
      fix g2 assume "?rest A g2 \<noteq> Diverges"
      then have "linkEach A src EArgument (getArguments sm c) g2 \<noteq> Diverges"
        by (rule andThen_first_total)
      then have "linkEach A' src EArgument (getArguments sm c) g2
                 = linkEach A src EArgument (getArguments sm c) g2"
        using A by (intro linkEach_mono)
      then show "?rest A' g2 = ?rest A g2" by simp
    qed
    then show ?thesis using a True by (simp add: processCallExpression_body_def)
  qed
qed

lemma processDefinition_body_mono:
  assumes V: "below (\<lambda>c. V c True) (\<lambda>c. V' c True)" and F: "below F F'"
  shows "below (processDefinition_body sm V F) (processDefinition_body sm V' F')"
  unfolding below_def
proof (intro allI impI)
  fix c g assume d: "processDefinition_body sm V F c g \<noteq> Diverges"
  show "processDefinition_body sm V' F' c g = processDefinition_body sm V F c g"
  proof (cases "getKind sm c = VariableDeclaration")
    case True
    then have "V c True g \<noteq> Diverges" using d by (simp add: processDefinition_body_def)
    then have "V' c True g = V c True g" using V by (simp add: below_def)
    then show ?thesis using True by (simp add: processDefinition_body_def)
  next
    case nv: False
    show ?thesis
    proof (cases "getKind sm c = FunctionDeclaration")
      case True
      then have "F c g \<noteq> Diverges"
        using d nv by (auto simp: processDefinition_body_def dest: andThen_first_total)
      then have "F' c g = F c g" using F by (simp add: below_def)
      then show ?thesis using True nv by (simp add: processDefinition_body_def)
    next
      case False
      then show ?thesis using nv by (simp add: processDefinition_body_def)
    qed
  qed
qed

lemma process_mono_step:
  "(\<forall>b. below (\<lambda>c. processVariableDeclaration sm n c b) (\<lambda>c. processVariableDeclaration sm (Suc n) c b))
   \<and> below (processCallExpression sm n) (processCallExpression sm (Suc n))
   \<and> below (processDefinition sm n) (processDefinition sm (Suc n))
   \<and> below (processFunctionDeclaration sm n) (processFunctionDeclaration sm (Suc n))
   \<and> below (processArgument sm n) (processArgument sm (Suc n))"
proof (induction n)
  case 0
  show ?case by (simp add: below_def)
next
  case (Suc n)
  then have V: "below (\<lambda>c. processVariableDeclaration sm n c True)
                      (\<lambda>c. processVariableDeclaration sm (Suc n) c True)"
    and C: "below (processCallExpression sm n) (processCallExpression sm (Suc n))"
    and D: "below (processDefinition sm n) (processDefinition sm (Suc n))"
    and F: "below (processFunctionDeclaration sm n) (processFunctionDeclaration sm (Suc n))"
    and A: "below (processArgument sm n) (processArgument sm (Suc n))" by blast+
  have v: "below (\<lambda>c. processVariableDeclaration_body sm (processCallExpression sm n) c b)
                 (\<lambda>c. processVariableDeclaration_body sm (processCallExpression sm (Suc n)) c b)" for b
    using C by (rule processVariableDeclaration_body_mono)
  have c: "below (processCallExpression_body sm (processDefinition sm n) (processArgument sm n))
                 (processCallExpression_body sm (processDefinition sm (Suc n)) (processArgument sm (Suc n)))"
    using D A by (rule processCallExpression_body_mono)
  have d: "below (processDefinition_body sm (processVariableDeclaration sm n) (processFunctionDeclaration sm n))
                 (processDefinition_body sm (processVariableDeclaration sm (Suc n))
                    (processFunctionDeclaration sm (Suc n)))"
    using V F by (rule processDefinition_body_mono)
  have f: "below (processFunctionDeclaration_body sm (processCallExpression sm n))
                 (processFunctionDeclaration_body sm (processCallExpression sm (Suc n)))"
    using C by (rule processFunctionDeclaration_body_mono)
  have a: "below (processArgument_body sm (processCallExpression sm n))
                 (processArgument_body sm (processCallExpression sm (Suc n)))"
    using C by (rule processArgument_body_mono)
  show ?case
    using v c d f a unfolding below_def by simp
qed

lemma below_refl: "below P P"
  by (simp add: below_def)

lemma below_trans: "below P Q \<Longrightarrow> below Q R \<Longrightarrow> below P R"
  unfolding below_def by metis

lemma process_mono:
  assumes "n \<le> m"
  shows "(\<forall>b. below (\<lambda>c. processVariableDeclaration sm n c b) (\<lambda>c. processVariableDeclaration sm m c b))
   \<and> below (processCallExpression sm n) (processCallExpression sm m)
   \<and> below (processDefinition sm n) (processDefinition sm m)
   \<and> below (processFunctionDeclaration sm n) (processFunctionDeclaration sm m)
   \<and> below (processArgument sm n) (processArgument sm m)"
  using assms
proof (induction m)
  case 0
  then show ?case by (simp add: below_refl)
next
  case (Suc m)
  show ?case
  proof (cases "n = Suc m")
    case True
    then show ?thesis by (simp only: below_refl simp_thms)
  next
    case False
    then have "n \<le> m" using Suc.prems by simp
    then have IH: "(\<forall>b. below (\<lambda>c. processVariableDeclaration sm n c b) (\<lambda>c. processVariableDeclaration sm m c b))
       \<and> below (processCallExpression sm n) (processCallExpression sm m)
       \<and> below (processDefinition sm n) (processDefinition sm m)
       \<and> below (processFunctionDeclaration sm n) (processFunctionDeclaration sm m)
       \<and> below (processArgument sm n) (processArgument sm m)" by (rule Suc.IH)
    note step = process_mono_step [of sm m]
    have "below (\<lambda>c. processVariableDeclaration sm n c b) (\<lambda>c. processVariableDeclaration sm (Suc m) c b)" for b
      using IH step by (blast intro: below_trans)
    moreover have "below (processCallExpression sm n) (processCallExpression sm (Suc m))"
      using IH step by (blast intro: below_trans)
    moreover have "below (processDefinition sm n) (processDefinition sm (Suc m))"
      using IH step by (blast intro: below_trans)
    moreover have "below (processFunctionDeclaration sm n) (processFunctionDeclaration sm (Suc m))"
      using IH step by (blast intro: below_trans)
    moreover have "below (processArgument sm n) (processArgument sm (Suc m))"
      using IH step by (blast intro: below_trans)
    ultimately show ?thesis by blast
  qed
qed

lemma processMethodDeclaration_mono:
  assumes "below (processCallExpression sm n) (processCallExpression sm m)"
  shows "below (processMethodDeclaration sm n) (processMethodDeclaration sm m)"
  unfolding below_def
proof (intro allI impI)
  fix c g assume d: "processMethodDeclaration sm n c g \<noteq> Diverges"
  obtain src isNew g1 where a: "addNodeIsNew c NFunction g = (src, isNew, g1)"
    using prod_cases3 by blast
  show "processMethodDeclaration sm m c g = processMethodDeclaration sm n c g"
  proof (cases isNew)
    case False
    then show ?thesis using a by (simp add: processMethodDeclaration_def)
  next
    case True
    show ?thesis
    proof (cases "getBody sm c")
      case None
      then show ?thesis using a True by (simp add: processMethodDeclaration_def)
    next
      case (Some body)
      then have "linkEach (processCallExpression sm n) src EChild (getDescendantCalls sm body) g1
                 \<noteq> Diverges"
        using d a True by (auto simp: processMethodDeclaration_def dest: andThen_first_total)
      then have "linkEach (processCallExpression sm m) src EChild (getDescendantCalls sm body) g1
                 = linkEach (processCallExpression sm n) src EChild (getDescendantCalls sm body) g1"
        using assms by (intro linkEach_mono)
      then show ?thesis using a True Some by (simp add: processMethodDeclaration_def)
    qed
  qed
qed

lemma andThen_below:
  assumes "below P P'" and "andThen (P c g) f \<noteq> Diverges"
  shows "andThen (P' c g) f = andThen (P c g) f"
proof -
  have "P c g \<noteq> Diverges" using assms(2) by (rule andThen_first_total)
  then have "P' c g = P c g" using assms(1) by (simp add: below_def)
  then show ?thesis by simp
qed

lemma processClasses_mono:
  assumes "n \<le> m" and "processClasses sm n f g \<noteq> Diverges"
  shows "processClasses sm m f g = processClasses sm n f g"
proof -
  have M: "below (processMethodDeclaration sm n) (processMethodDeclaration sm m)"
    using process_mono [OF assms(1), of sm] by (intro processMethodDeclaration_mono) blast
  have cls: "processClass sm m c h = processClass sm n c h"
    if "processClass sm n c h \<noteq> Diverges" for c h
    unfolding processClass_def
    by (rule forEach_mono [OF _ that [unfolded processClass_def]]) (rule andThen_below [OF M])
  show ?thesis
    unfolding processClasses_def
    by (rule forEach_mono [OF _ assms(2) [unfolded processClasses_def]]) (rule cls)
qed

lemma processFunctions_mono:
  assumes "n \<le> m" and "processFunctions sm n f g \<noteq> Diverges"
  shows "processFunctions sm m f g = processFunctions sm n f g"
proof -
  have F: "below (processFunctionDeclaration sm n) (processFunctionDeclaration sm m)"
    using process_mono [OF assms(1), of sm] by blast
  show ?thesis
    unfolding processFunctions_def
    by (rule forEach_mono [OF _ assms(2) [unfolded processFunctions_def]]) (rule andThen_below [OF F])
qed

lemma processVariables_mono:
  assumes "n \<le> m" and "processVariables sm n f g \<noteq> Diverges"
  shows "processVariables sm m f g = processVariables sm n f g"
proof -
  have V: "below (\<lambda>c. processVariableDeclaration sm n c True)
                 (\<lambda>c. processVariableDeclaration sm m c True)"
    using process_mono [OF assms(1), of sm] by blast
  have inner: "forEach (\<lambda>declaration g''.
                   andThen (processVariableDeclaration sm m declaration True g'')
                     (\<lambda>(info, g3). Returns g3)) ds h
             = forEach (\<lambda>declaration g''.
                   andThen (processVariableDeclaration sm n declaration True g'')
                     (\<lambda>(info, g3). Returns g3)) ds h"
    if "forEach (\<lambda>declaration g''.
                   andThen (processVariableDeclaration sm n declaration True g'')
                     (\<lambda>(info, g3). Returns g3)) ds h \<noteq> Diverges" for ds h
    by (rule forEach_mono [OF _ that]) (rule andThen_below [OF V])
  show ?thesis
    unfolding processVariables_def
  proof (rule forEach_mono [OF _ assms(2) [unfolded processVariables_def]])
    fix v h
    assume "(case getVariableStatement sm v of
               None \<Rightarrow> Throws NoVariableStatement
             | Some statement \<Rightarrow>
                 forEach (\<lambda>declaration g''.
                            andThen (processVariableDeclaration sm n declaration True g'')
                              (\<lambda>(info, g3). Returns g3))
                         (getDeclarations sm statement) h) \<noteq> Diverges"
    then show "(case getVariableStatement sm v of
               None \<Rightarrow> Throws NoVariableStatement
             | Some statement \<Rightarrow>
                 forEach (\<lambda>declaration g''.
                            andThen (processVariableDeclaration sm m declaration True g'')
                              (\<lambda>(info, g3). Returns g3))
                         (getDeclarations sm statement) h)
            = (case getVariableStatement sm v of
               None \<Rightarrow> Throws NoVariableStatement
             | Some statement \<Rightarrow>
                 forEach (\<lambda>declaration g''.
                            andThen (processVariableDeclaration sm n declaration True g'')
                              (\<lambda>(info, g3). Returns g3))
                         (getDeclarations sm statement) h)"
      using inner by (cases "getVariableStatement sm v") simp_all
  qed
qed

lemma initialize_mono:
  assumes le: "n \<le> m" and d: "initialize sm n g \<noteq> Diverges"
  shows "initialize sm m g = initialize sm n g"
  unfolding initialize_def
proof (rule forEach_mono [OF _ d [unfolded initialize_def]])
  fix f h
  assume nd: "andThen (processVariables sm n f h)
            (\<lambda>g1. andThen (processFunctions sm n f g1)
               (\<lambda>g2. processClasses sm n f g2)) \<noteq> Diverges"
  show "andThen (processVariables sm m f h)
            (\<lambda>g1. andThen (processFunctions sm m f g1)
               (\<lambda>g2. processClasses sm m f g2))
      = andThen (processVariables sm n f h)
            (\<lambda>g1. andThen (processFunctions sm n f g1)
               (\<lambda>g2. processClasses sm n f g2))"
  proof (rule andThen_mono [OF nd])
    assume "processVariables sm n f h \<noteq> Diverges"
    then show "processVariables sm m f h = processVariables sm n f h"
      by (rule processVariables_mono [OF le])
  next
    fix g1
    assume nd1: "andThen (processFunctions sm n f g1) (\<lambda>g2. processClasses sm n f g2) \<noteq> Diverges"
    show "andThen (processFunctions sm m f g1) (\<lambda>g2. processClasses sm m f g2)
        = andThen (processFunctions sm n f g1) (\<lambda>g2. processClasses sm n f g2)"
    proof (rule andThen_mono [OF nd1])
      assume "processFunctions sm n f g1 \<noteq> Diverges"
      then show "processFunctions sm m f g1 = processFunctions sm n f g1"
        by (rule processFunctions_mono [OF le])
    next
      fix g2 assume "processClasses sm n f g2 \<noteq> Diverges"
      then show "processClasses sm m f g2 = processClasses sm n f g2"
        by (rule processClasses_mono [OF le])
    qed
  qed
qed

subsection \<open>The live array of the splice loop\<close>

text \<open>
  Were the definition node and the call node the same node, every step of the loop would
  append one edge to the array that it reads, and the loop would not come back.
\<close>

lemma spliceLoop_on_itself:
  assumes "i < length (outgoingOf g s)" and "edgeInfo g = Map.empty"
  shows "spliceLoop s s i g = None"
proof (cases "spliceLoop s s i g")
  case None
  then show ?thesis .
next
  case (Some r)
  have "s = s \<longrightarrow> edgeInfo g = Map.empty \<longrightarrow> \<not> i < length (outgoingOf g s)"
  proof (rule spliceLoop.raw_induct
      [where P = "\<lambda>d' s' i' h y. d' = s' \<longrightarrow> edgeInfo h = Map.empty \<longrightarrow> \<not> i' < length (outgoingOf h d')",
        OF _ Some])
    fix f :: "nat \<Rightarrow> nat \<Rightarrow> nat \<Rightarrow> 'a CodeFlowGraph \<Rightarrow> 'a CodeFlowGraph option"
    fix d' s' i' h y
    assume IH: "\<And>a b c e z. f a b c e = Some z \<Longrightarrow>
                  a = b \<longrightarrow> edgeInfo e = Map.empty \<longrightarrow> \<not> c < length (outgoingOf e a)"
    assume eq: "(if i' < length (outgoingOf h d')
                 then f d' s' (Suc i') (snd (addEdge s' (destination (outgoingOf h d' ! i')) EChild h))
                 else Some h) = Some y"
    show "d' = s' \<longrightarrow> edgeInfo h = Map.empty \<longrightarrow> \<not> i' < length (outgoingOf h d')"
    proof (intro impI notI)
      assume same: "d' = s'" and e: "edgeInfo h = Map.empty" and lt: "i' < length (outgoingOf h d')"
      let ?h1 = "snd (addEdge s' (destination (outgoingOf h d' ! i')) EChild h)"
      have run: "f d' s' (Suc i') ?h1 = Some y" using eq lt by simp
      obtain nd where "Map_get (nodes h) s' = Some nd"
        using lt same by (cases "Map_get (nodes h) s'") (auto simp: outgoingOf_def)
      then have t: "nodeTypeOf h s' = Some (nodeType nd)" by (simp add: nodeTypeOf_def)
      have "edgeInfo h (s', destination (outgoingOf h d' ! i')) = None" using e by simp
      then have "length (outgoingOf ?h1 s') = Suc (length (outgoingOf h s'))"
        using t by (simp add: addEdge_outgoingOf_src)
      then have "Suc i' < length (outgoingOf ?h1 d')" using lt same by simp
      moreover have "edgeInfo ?h1 = Map.empty" using e by simp
      ultimately show False using IH [OF run] same by simp
    qed
  qed
  then show ?thesis using assms by simp
qed

subsection \<open>A recursive input\<close>

text \<open>
  Two functions that call each other and one that calls itself:
  \<^verbatim>\<open>
  export function ping() { return pong(); }
  export function pong() { return ping(); }
  export function again() { again(); }
  \<close>
\<close>

datatype cyclic =
    FileC
  | FunPing | BodyPing | CallPong | CalleePong
  | FunPong | BodyPong | CallPing | CalleePing
  | FunAgain | BodyAgain | CallAgain | CalleeAgain

fun cy_getKind :: "cyclic \<Rightarrow> SyntaxKind" where
  "cy_getKind FunPing = FunctionDeclaration"
| "cy_getKind FunPong = FunctionDeclaration"
| "cy_getKind FunAgain = FunctionDeclaration"
| "cy_getKind CallPong = CallExpression"
| "cy_getKind CallPing = CallExpression"
| "cy_getKind CallAgain = CallExpression"
| "cy_getKind CalleePong = Identifier"
| "cy_getKind CalleePing = Identifier"
| "cy_getKind CalleeAgain = Identifier"
| "cy_getKind _ = OtherKind"

fun cy_getParent :: "cyclic \<Rightarrow> cyclic option" where
  "cy_getParent FileC = None"
| "cy_getParent BodyPing = Some FunPing"
| "cy_getParent CallPong = Some BodyPing"
| "cy_getParent CalleePong = Some CallPong"
| "cy_getParent BodyPong = Some FunPong"
| "cy_getParent CallPing = Some BodyPong"
| "cy_getParent CalleePing = Some CallPing"
| "cy_getParent BodyAgain = Some FunAgain"
| "cy_getParent CallAgain = Some BodyAgain"
| "cy_getParent CalleeAgain = Some CallAgain"
| "cy_getParent _ = Some FileC"

definition cyclicModel :: "cyclic SourceModel" where
  "cyclicModel = \<lparr>
     getSourceFiles = [FileC],
     getVariableDeclarations = (\<lambda>c. []),
     getFunctions = (\<lambda>c. if c = FileC then [FunPing, FunPong, FunAgain] else []),
     getClasses = (\<lambda>c. []),
     getMethods = (\<lambda>c. []),
     getVariableStatement = (\<lambda>c. None),
     getDeclarations = (\<lambda>c. []),
     getKind = cy_getKind,
     isExported = (\<lambda>c. c = FunPing \<or> c = FunPong \<or> c = FunAgain),
     getInitializer = (\<lambda>c. None),
     getBody = (\<lambda>c. if c = FunPing then Some BodyPing
                      else if c = FunPong then Some BodyPong
                      else if c = FunAgain then Some BodyAgain else None),
     getDescendantCalls = (\<lambda>c. if c = FunPing \<or> c = BodyPing then [CallPong]
                                 else if c = FunPong \<or> c = BodyPong then [CallPing]
                                 else if c = FunAgain \<or> c = BodyAgain then [CallAgain]
                                 else if c = FileC then [CallPong, CallPing, CallAgain]
                                 else []),
     getExpression = (\<lambda>c. if c = CallPong then CalleePong
                            else if c = CallPing then CalleePing
                            else if c = CallAgain then CalleeAgain else c),
     getDefinitionNodes = (\<lambda>c. if c = CalleePong then [FunPong]
                                 else if c = CalleePing then [FunPing]
                                 else if c = CalleeAgain then [FunAgain] else []),
     getArguments = (\<lambda>c. []),
     findReferences = (\<lambda>c. if c = FunPing then [[CalleePing]]
                             else if c = FunPong then [[CalleePong]]
                             else if c = FunAgain then [[CalleeAgain]] else []),
     getParent = cy_getParent,
     getSymbolName = (\<lambda>c. if c = FunPing then Some ''ping''
                            else if c = FunPong then Some ''pong''
                            else if c = FunAgain then Some ''again'' else None) \<rparr>"

definition cyclicGraph :: "cyclic CodeFlowGraph" where
  "cyclicGraph = (case initialize cyclicModel 8 newGraph of Returns g \<Rightarrow> g | _ \<Rightarrow> newGraph)"

lemma UNIV_cyclic:
  "(UNIV :: cyclic set) = {FileC, FunPing, BodyPing, CallPong, CalleePong, FunPong, BodyPong,
     CallPing, CalleePing, FunAgain, BodyAgain, CallAgain, CalleeAgain}"
proof -
  have "x \<in> {FileC, FunPing, BodyPing, CallPong, CalleePong, FunPong, BodyPong,
     CallPing, CalleePing, FunAgain, BodyAgain, CallAgain, CalleeAgain}" for x
    by (cases x) simp_all
  then show ?thesis by blast
qed

lemma finite_cyclic: "finite (UNIV :: cyclic set)"
  by (simp add: UNIV_cyclic)

lemma card_cyclic: "card (UNIV :: cyclic set) = 13"
  by (simp add: UNIV_cyclic)

lemma no_self_definition_cyclic: "no_self_definition cyclicModel"
  unfolding no_self_definition_def
proof
  fix call
  show "call \<notin> set (getDefinitionNodes cyclicModel (getExpression cyclicModel call))"
    by (cases call) (simp_all add: cyclicModel_def)
qed

lemma cyclic_build_returns: "initialize cyclicModel 8 newGraph = Returns cyclicGraph"
proof -
  have "isReturns (initialize cyclicModel 8 newGraph)" by code_simp
  then show ?thesis
    by (cases "initialize cyclicModel 8 newGraph") (simp_all add: isReturns_def cyclicGraph_def)
qed

lemma cyclic_build_any_depth:
  assumes "8 \<le> m"
  shows "initialize cyclicModel m newGraph = Returns cyclicGraph"
proof -
  have "initialize cyclicModel 8 newGraph \<noteq> Diverges" by (simp add: cyclic_build_returns)
  then have "initialize cyclicModel m newGraph = initialize cyclicModel 8 newGraph"
    by (rule initialize_mono [OF assms])
  then show ?thesis by (simp add: cyclic_build_returns)
qed

lemma cyclic_nodes:
  "map (\<lambda>(k, n). (k, node n, nodeType n)) (nodes cyclicGraph)
     = [(0, FunPing, NFunction), (1, CallPong, NCall), (2, FunPong, NFunction),
        (3, CallPing, NCall), (4, FunAgain, NFunction), (5, CallAgain, NCall)]"
  by code_simp

lemma cyclic_edges:
  "map (\<lambda>(k, e). (source e, destination e, edgeType e)) (edges cyclicGraph)
     = [(2, 3, EChild), (1, 3, EChild), (0, 1, EChild), (4, 5, EChild)]"
  by code_simp

text \<open>
  When the call \<open>again()\<close> is resolved, the function \<open>again\<close> is still being expanded and
  its node (node \<open>4\<close>) has no outgoing edge yet, so nothing is copied to the call node
  (node \<open>5\<close>); the \<^verbatim>\<open>Child\<close> edge from \<open>again\<close> to the call, added afterwards, is not
  copied either.
\<close>

lemma recursive_callee_edges_not_copied:
  "getDefinitionNodes cyclicModel (getExpression cyclicModel CallAgain) = [FunAgain]
   \<and> nodeToInfo cyclicGraph FunAgain = Some 4
   \<and> nodeToInfo cyclicGraph CallAgain = Some 5
   \<and> map shape (outgoingOf cyclicGraph 4) = [(4, 5, EChild)]
   \<and> outgoingOf cyclicGraph 5 = []"
proof -
  have 1: "getDefinitionNodes cyclicModel (getExpression cyclicModel CallAgain) = [FunAgain]"
    by (simp add: cyclicModel_def)
  have 2: "nodeToInfo cyclicGraph FunAgain = Some 4" by code_simp
  have 3: "nodeToInfo cyclicGraph CallAgain = Some 5" by code_simp
  have 4: "map shape (outgoingOf cyclicGraph 4) = [(4, 5, EChild)]" by code_simp
  have 5: "outgoingOf cyclicGraph 5 = []" by code_simp
  show ?thesis by (intro conjI) (fact 1 2 3 4 5)+
qed

text \<open>
  Claim C6 (termination on cyclic code). For every source model over finitely many
  constructs in which no call expression is among the definitions of its own callee,
  the build started on the empty graph comes back, with a graph or with an error, at
  every depth from twice the number of constructs plus one, and a larger depth gives the
  same result: the traversal of the code terminates. The model may hold any cycle of
  calls, such as \<open>cyclicModel\<close>, where two functions call each other and a third calls
  itself.
\<close>

theorem traversal_terminates:
  assumes "finite (UNIV :: 'c set)" and "no_self_definition (sm :: 'c SourceModel)"
    and "2 * card (UNIV :: 'c set) + 1 \<le> n"
  shows "initialize sm n newGraph \<noteq> Diverges
         \<and> (\<forall>m\<ge>n. initialize sm m newGraph = initialize sm n newGraph)"
proof -
  have "initialize sm n newGraph \<noteq> Diverges"
    using assms inv_newGraph by (rule initialize_total)
  then show ?thesis by (simp add: initialize_mono)
qed

theorem traversal_terminates_witness:
  "finite (UNIV :: cyclic set) \<and> no_self_definition cyclicModel
   \<and> 2 * card (UNIV :: cyclic set) + 1 \<le> 27
   \<and> initialize cyclicModel 27 newGraph \<noteq> Diverges
   \<and> initialize cyclicModel 40 newGraph = initialize cyclicModel 27 newGraph"
proof -
  have b: "2 * card (UNIV :: cyclic set) + 1 \<le> 27" by (simp add: card_cyclic)
  have le: "(27 :: nat) \<le> 40" by simp
  show ?thesis
    using traversal_terminates [OF finite_cyclic no_self_definition_cyclic b]
      finite_cyclic no_self_definition_cyclic b le
    by blast
qed

end
